theory Spec2Isabelle
  imports Main "HOL-Library.Word"
begin

section \<open>Data model (nsloopctl.c, the loopctl\_* revision)\<close>

text \<open>
  The module keeps two hash tables (\<open>loops\<close>, \<open>threads\<close>), a counter \<open>next\<close> for loop
  ids, one mutex and one condition variable. Every access to the tables and to the
  \<open>LoopData\<close> and \<open>EvalData\<close> structures happens with the mutex held, so each critical
  section of the source is one atomic function on the shared state below. A function of
  the source that releases the mutex in the middle (\<open>CheckControl\<close> around \<open>Tcl_EvalEx\<close>
  and in \<open>Ns_CondWait\<close>, \<open>EvalObjCmd\<close> in \<open>Ns_CondTimedWait\<close>) is cut at those points
  into the pieces that run with the mutex held.
\<close>

text \<open>Tcl completion codes (tcl.h).\<close>

abbreviation TCL_OK :: int where "TCL_OK \<equiv> 0"
abbreviation TCL_ERROR :: int where "TCL_ERROR \<equiv> 1"
abbreviation TCL_RETURN :: int where "TCL_RETURN \<equiv> 2"
abbreviation TCL_BREAK :: int where "TCL_BREAK \<equiv> 3"
abbreviation TCL_CONTINUE :: int where "TCL_CONTINUE \<equiv> 4"

text \<open>The status of \<open>Ns_CondTimedWait\<close> (ns.h).\<close>

datatype Ns_ReturnCode = NS_OK | NS_ERROR | NS_TIMEOUT

datatype EvalState = EVAL_WAIT | EVAL_DONE | EVAL_DROP

text \<open>\<open>struct EvalData\<close>: it lives on the stack of the thread that runs \<open>EvalObjCmd\<close>.\<close>

record EvalData =
  state :: EvalState
  code :: int
  script :: string
  result :: string

datatype LoopControl = LOOP_RUN | LOOP_PAUSE | LOOP_CANCEL

type_synonym Ns_Time = "int \<times> int"

text \<open>
  \<open>struct LoopData\<close>: it lives on the stack of the loop command. \<open>hPtr\<close> is the entry of
  the loop in the table \<open>loops\<close>; an entry of a table is identified by its key.
  \<open>evalPtr\<close> is the address of the pending \<open>EvalData\<close>, \<open>None\<close> for \<open>NULL\<close>.
\<close>

record LoopData =
  control :: LoopControl
  lid :: string
  tid :: nat
  spins :: "32 word"
  etime :: Ns_Time
  hPtr :: string
  args :: "string list"
  evalPtr :: "nat option"

text \<open>
  \<open>struct ThreadData\<close>: \<open>cancel\<close> is the thread's \<open>Tcl_AsyncHandler\<close>, modelled by
  its mark (set by \<open>Tcl_AsyncMark\<close>, consumed when Tcl invokes the handler).
\<close>

record ThreadData =
  cancel :: bool
  thread_hPtr :: string

text \<open>
  A \<open>Tcl_HashTable\<close> with string keys: the entries in the order of enumeration, one per
  key, each with its \<open>ClientData\<close> value (\<open>None\<close> for \<open>NULL\<close>). The order in which Tcl
  enumerates a table is not specified; the list takes the order of creation, and the
  statements about a table below are about its set of entries and their number.
\<close>

type_synonym Tcl_HashTable = "(string \<times> nat option) list"

text \<open>An entry of the server log: from \<open>Ns_TclLogErrorInfo\<close>, or from \<open>Ns_Log(Error, ...)\<close>.\<close>

datatype log_entry = TclErrorInfo string | Error string

text \<open>
  The static variables of the file, and the memory holding the structures that the
  tables and \<open>evalPtr\<close> point to, indexed by address. \<open>cond\<close> counts the calls of
  \<open>Ns_CondBroadcast\<close>; \<open>log\<close> is what the module has written to the server log.
\<close>

record nsloopctl =
  loops :: Tcl_HashTable
  threads :: Tcl_HashTable
  next_id :: "32 word"
  cond :: nat
  log :: "log_entry list"
  loopData :: "nat \<Rightarrow> LoopData"
  evalData :: "nat \<Rightarrow> EvalData"
  threadData :: "nat \<Rightarrow> ThreadData"

section \<open>The hash table interface\<close>

definition Tcl_FindHashEntry :: "Tcl_HashTable \<Rightarrow> string \<Rightarrow> string option" where
  "Tcl_FindHashEntry tbl key = (if key \<in> set (map fst tbl) then Some key else None)"

definition Tcl_GetHashValue :: "Tcl_HashTable \<Rightarrow> string \<Rightarrow> nat option" where
  "Tcl_GetHashValue tbl h = (case map_of tbl h of None \<Rightarrow> None | Some v \<Rightarrow> v)"

text \<open>The result is the table, and the flag \<open>new\<close>; the entry is the one of \<open>key\<close>.\<close>

definition Tcl_CreateHashEntry :: "Tcl_HashTable \<Rightarrow> string \<Rightarrow> Tcl_HashTable \<times> bool" where
  "Tcl_CreateHashEntry tbl key =
     (if key \<in> set (map fst tbl) then (tbl, False) else (tbl @ [(key, None)], True))"

definition Tcl_SetHashValue :: "Tcl_HashTable \<Rightarrow> string \<Rightarrow> nat option \<Rightarrow> Tcl_HashTable" where
  "Tcl_SetHashValue tbl h v = map (\<lambda>(k, x). if k = h then (k, v) else (k, x)) tbl"

definition Tcl_DeleteHashEntry :: "Tcl_HashTable \<Rightarrow> string \<Rightarrow> Tcl_HashTable" where
  "Tcl_DeleteHashEntry tbl h = filter (\<lambda>(k, x). k \<noteq> h) tbl"

section \<open>Printing an id: \<open>snprintf\<close> with \<open>PRIxPTR\<close>\<close>

text \<open>
  The conversion prints its argument in hexadecimal, with lower-case digits and without
  leading zeros. \<open>hex_digit\<close> is only applied to numbers below 16. An id has at most 16
  digits and fits the 32 bytes of \<open>lid\<close>.
\<close>

definition hex_digit :: "nat \<Rightarrow> char" where
  "hex_digit d = ''0123456789abcdef'' ! d"

function hex_of :: "nat \<Rightarrow> string" where
  "hex_of n = (if n < 16 then [hex_digit n] else hex_of (n div 16) @ [hex_digit (n mod 16)])"
  by pat_completeness auto
termination
  by (relation "measure id") auto

declare hex_of.simps [simp del]

section \<open>Entering and leaving a loop\<close>

text \<open>
  The \<open>do ... while (!new)\<close> of \<open>EnterLoop\<close>: print the counter, increment it, try to
  create the entry. The result is the id printed last, the table and the counter. The
  counter \<open>next\<close> is an \<open>unsigned int\<close>, taken as 32 bits wide; the cast to \<open>intptr_t\<close>
  keeps its value or its bits, and the digits printed are those of the unsigned value.
\<close>

partial_function (option) EnterLoop_probe ::
  "Tcl_HashTable \<Rightarrow> 32 word \<Rightarrow> (string \<times> Tcl_HashTable \<times> 32 word) option" where
  "EnterLoop_probe tbl nxt =
     (if snd (Tcl_CreateHashEntry tbl (hex_of (unat nxt)))
      then Some (hex_of (unat nxt), fst (Tcl_CreateHashEntry tbl (hex_of (unat nxt))), nxt + 1)
      else EnterLoop_probe (fst (Tcl_CreateHashEntry tbl (hex_of (unat nxt)))) (nxt + 1))"

declare EnterLoop_probe.simps [code]

text \<open>
  \<open>EnterLoop(loopPtr, objc, objv)\<close> in the thread \<open>thread\<close> at the time \<open>now\<close>; \<open>objv\<close>
  are the words of the command, which \<open>args\<close> keeps as a list. \<open>None\<close>: the probing
  does not end.
\<close>

definition EnterLoop :: "nsloopctl \<Rightarrow> nat \<Rightarrow> nat \<Rightarrow> Ns_Time \<Rightarrow> string list \<Rightarrow> nsloopctl option" where
  "EnterLoop s loopPtr thread now objv =
     (case EnterLoop_probe (loops s) (next_id s) of
        None \<Rightarrow> None
      | Some (key, tbl, nxt) \<Rightarrow>
          Some (s\<lparr>loops := Tcl_SetHashValue tbl key (Some loopPtr),
                 next_id := nxt,
                 loopData := (loopData s)(loopPtr :=
                   \<lparr>control = LOOP_RUN, lid = key, tid = thread, spins = 0, etime = now,
                    hPtr = key, args = objv, evalPtr = None\<rparr>)\<rparr>))"

definition Ns_CondBroadcast :: "nsloopctl \<Rightarrow> nsloopctl" where
  "Ns_CondBroadcast s = s\<lparr>cond := cond s + 1\<rparr>"

text \<open>The first half of \<open>LeaveLoop\<close>: drop the pending request and wake its sender.\<close>

definition LeaveLoop_drop :: "nsloopctl \<Rightarrow> nat \<Rightarrow> nsloopctl" where
  "LeaveLoop_drop s loopPtr =
     (case evalPtr (loopData s loopPtr) of
        None \<Rightarrow> s
      | Some e \<Rightarrow>
          Ns_CondBroadcast (s\<lparr>evalData := (evalData s)(e := (evalData s e)\<lparr>state := EVAL_DROP\<rparr>)\<rparr>))"

definition LeaveLoop :: "nsloopctl \<Rightarrow> nat \<Rightarrow> nsloopctl" where
  "LeaveLoop s loopPtr =
     (let s1 = LeaveLoop_drop s loopPtr
      in s1\<lparr>loops := Tcl_DeleteHashEntry (loops s1) (hPtr (loopData s1 loopPtr))\<rparr>)"

section \<open>The commands\<close>

text \<open>\<open>List\<close>: the keys of a table, in the order of enumeration.\<close>

definition List :: "Tcl_HashTable \<Rightarrow> int \<times> string list" where
  "List tablePtr = (TCL_OK, map fst tablePtr)"

definition LoopsObjCmd :: "nsloopctl \<Rightarrow> int \<times> string list" where
  "LoopsObjCmd s = List (loops s)"

definition ThreadsObjCmd :: "nsloopctl \<Rightarrow> int \<times> string list" where
  "ThreadsObjCmd s = List (threads s)"

text \<open>\<open>GetLoop\<close>: the loop of an id, and the text appended to the result of the interp.\<close>

definition GetLoop :: "nsloopctl \<Rightarrow> string \<Rightarrow> nat option \<times> string" where
  "GetLoop s ident =
     (case Tcl_FindHashEntry (loops s) ident of
        None \<Rightarrow> (None, ''no such loop id: '' @ ident)
      | Some h \<Rightarrow> (Tcl_GetHashValue (loops s) h, ''''))"

text \<open>
  What a command that can block does when it gives up the mutex: it has returned with a
  completion code and the result of its interp, or it waits on the condition variable
  for the loop \<open>loopPtr\<close> it has queued its request to.
\<close>

datatype cmd_yield = CmdReturn int string | CmdWait nat

text \<open>
  \<open>EvalObjCmd\<close> up to its first \<open>Ns_CondTimedWait\<close>. \<open>eval\<close> is the address of the
  local variable \<open>eval\<close> of this call. The wait loop is entered with \<open>status == NS_OK\<close>
  and \<open>eval.state == EVAL_WAIT\<close>, so the first wait always happens.
\<close>

definition EvalObjCmd :: "nsloopctl \<Rightarrow> nat \<Rightarrow> string \<Rightarrow> string \<Rightarrow> cmd_yield \<times> nsloopctl" where
  "EvalObjCmd s eval ident scr =
     (case GetLoop s ident of
        (None, msg) \<Rightarrow> (CmdReturn TCL_ERROR msg, s)
      | (Some loopPtr, msg) \<Rightarrow>
          if evalPtr (loopData s loopPtr) \<noteq> None
          then (CmdReturn TCL_ERROR ''eval pending'', s)
          else (CmdWait loopPtr,
                Ns_CondBroadcast
                  (s\<lparr>evalData := (evalData s)(eval :=
                       \<lparr>state = EVAL_WAIT, code = TCL_OK, script = scr, result = ''''\<rparr>),
                     loopData := (loopData s)(loopPtr :=
                       (loopData s loopPtr)\<lparr>evalPtr := Some eval\<rparr>)\<rparr>)))"

text \<open>The \<open>switch (eval.state)\<close> after the wait loop of \<open>EvalObjCmd\<close>.\<close>

definition EvalObjCmd_switch :: "nsloopctl \<Rightarrow> nat \<Rightarrow> nat \<Rightarrow> cmd_yield \<times> nsloopctl" where
  "EvalObjCmd_switch s eval loopPtr =
     (case state (evalData s eval) of
        EVAL_WAIT \<Rightarrow>
          (CmdReturn TCL_ERROR ''timeout: result dropped'',
           s\<lparr>loopData := (loopData s)(loopPtr := (loopData s loopPtr)\<lparr>evalPtr := None\<rparr>)\<rparr>)
      | EVAL_DROP \<Rightarrow> (CmdReturn TCL_ERROR ''dropped: loop exited'', s)
      | EVAL_DONE \<Rightarrow> (CmdReturn (code (evalData s eval)) (result (evalData s eval)), s))"

text \<open>
  \<open>EvalObjCmd\<close> from the return of \<open>Ns_CondTimedWait\<close> with \<open>status\<close>, the mutex held
  again: the test of the wait loop, then another wait or the switch.
\<close>

definition EvalObjCmd_wake :: "nsloopctl \<Rightarrow> nat \<Rightarrow> nat \<Rightarrow> Ns_ReturnCode \<Rightarrow> cmd_yield \<times> nsloopctl" where
  "EvalObjCmd_wake s eval loopPtr status =
     (if status = NS_OK \<and> state (evalData s eval) = EVAL_WAIT
      then (CmdWait loopPtr, s)
      else EvalObjCmd_switch s eval loopPtr)"

text \<open>\<open>Signal\<close>, behind \<open>loopctl_pause\<close>, \<open>loopctl_run\<close> and \<open>loopctl_cancel\<close>.\<close>

definition Signal :: "nsloopctl \<Rightarrow> string \<Rightarrow> LoopControl \<Rightarrow> (int \<times> string) \<times> nsloopctl" where
  "Signal s ident signal =
     (case GetLoop s ident of
        (None, msg) \<Rightarrow> ((TCL_ERROR, msg), s)
      | (Some loopPtr, msg) \<Rightarrow>
          ((TCL_OK, msg),
           Ns_CondBroadcast
             (s\<lparr>loopData := (loopData s)(loopPtr := (loopData s loopPtr)\<lparr>control := signal\<rparr>)\<rparr>)))"

definition PauseObjCmd :: "nsloopctl \<Rightarrow> string \<Rightarrow> (int \<times> string) \<times> nsloopctl" where
  "PauseObjCmd s ident = Signal s ident LOOP_PAUSE"

definition RunObjCmd :: "nsloopctl \<Rightarrow> string \<Rightarrow> (int \<times> string) \<times> nsloopctl" where
  "RunObjCmd s ident = Signal s ident LOOP_RUN"

definition CancelObjCmd :: "nsloopctl \<Rightarrow> string \<Rightarrow> (int \<times> string) \<times> nsloopctl" where
  "CancelObjCmd s ident = Signal s ident LOOP_CANCEL"

text \<open>\<open>Tcl_AsyncMark\<close> on the handler of the \<open>ThreadData\<close> at \<open>threadPtr\<close>.\<close>

definition Tcl_AsyncMark :: "nsloopctl \<Rightarrow> nat \<Rightarrow> nsloopctl" where
  "Tcl_AsyncMark s threadPtr =
     s\<lparr>threadData := (threadData s)(threadPtr := (threadData s threadPtr)\<lparr>cancel := True\<rparr>)\<rparr>"

text \<open>
  \<open>AbortObjCmd\<close>. An entry of \<open>threads\<close> always has a value; were it \<open>NULL\<close> the
  source would dereference it, which the model leaves without effect.
\<close>

definition AbortObjCmd :: "nsloopctl \<Rightarrow> string \<Rightarrow> (int \<times> string) \<times> nsloopctl" where
  "AbortObjCmd s ident =
     (case Tcl_FindHashEntry (threads s) ident of
        Some h \<Rightarrow>
          (case Tcl_GetHashValue (threads s) h of
             Some threadPtr \<Rightarrow> ((TCL_OK, ''''), Tcl_AsyncMark s threadPtr)
           | None \<Rightarrow> ((TCL_OK, ''''), s))
      | None \<Rightarrow> ((TCL_ERROR, ''no such active thread: '' @ ident), s))"

text \<open>
  The part of \<open>InitInterp\<close> that registers the running thread: \<open>tlsPtr\<close> is what
  \<open>Ns_TlsGet\<close> returns, \<open>threadPtr\<close> the address \<open>ns_malloc\<close> returns, \<open>thread\<close>
  the value of \<open>Ns_ThreadId\<close>.
\<close>

definition InitInterp :: "nsloopctl \<Rightarrow> nat option \<Rightarrow> nat \<Rightarrow> nat \<Rightarrow> nsloopctl" where
  "InitInterp s tlsPtr threadPtr thread =
     (case tlsPtr of
        Some t \<Rightarrow> s
      | None \<Rightarrow>
          s\<lparr>threads := Tcl_SetHashValue (fst (Tcl_CreateHashEntry (threads s) (hex_of thread)))
                          (hex_of thread) (Some threadPtr),
            threadData := (threadData s)(threadPtr :=
              \<lparr>cancel = False, thread_hPtr = hex_of thread\<rparr>)\<rparr>)"

text \<open>\<open>ThreadCleanup\<close>, the destructor of the thread-local slot.\<close>

definition ThreadCleanup :: "nsloopctl \<Rightarrow> nat \<Rightarrow> nsloopctl" where
  "ThreadCleanup s threadPtr =
     s\<lparr>threads := Tcl_DeleteHashEntry (threads s) (thread_hPtr (threadData s threadPtr))\<rparr>"

section \<open>The checkpoint\<close>

text \<open>
  What \<open>CheckControl\<close> does when it gives up the mutex: it has returned with a code
  and the result of the interp; or it runs the copied script in \<open>Tcl_EvalEx\<close>; or it
  waits in \<open>Ns_CondWait\<close>, the interp holding the given result.
\<close>

datatype check_yield = Returned int string | EvalScript string | CondWait string

text \<open>
  The head of the \<open>while\<close> loop of \<open>CheckControl\<close>, with the mutex held, up to the next
  point where the mutex is released; \<open>ires\<close> is the result of the interp.
\<close>

definition CheckControl_loop :: "nsloopctl \<Rightarrow> nat \<Rightarrow> string \<Rightarrow> check_yield \<times> nsloopctl" where
  "CheckControl_loop s loopPtr ires =
     (if evalPtr (loopData s loopPtr) \<noteq> None \<or> control (loopData s loopPtr) = LOOP_PAUSE
      then (case evalPtr (loopData s loopPtr) of
              Some e \<Rightarrow> (EvalScript (script (evalData s e)), s)
            | None \<Rightarrow> (CondWait ires, s))
      else if control (loopData s loopPtr) = LOOP_CANCEL
      then (Returned TCL_ERROR ''nsloopctl: loop canceled: returning TCL_ERROR'', s)
      else (Returned TCL_OK ires, s))"

text \<open>\<open>CheckControl\<close> from its call: count the visit, then the loop.\<close>

definition CheckControl :: "nsloopctl \<Rightarrow> nat \<Rightarrow> string \<Rightarrow> check_yield \<times> nsloopctl" where
  "CheckControl s loopPtr ires =
     CheckControl_loop
       (s\<lparr>loopData := (loopData s)(loopPtr :=
            (loopData s loopPtr)\<lparr>spins := spins (loopData s loopPtr) + 1\<rparr>)\<rparr>)
       loopPtr ires"

text \<open>
  \<open>CheckControl\<close> from the return of \<open>Tcl_EvalEx\<close> with the code \<open>res\<close> and the result
  \<open>str\<close> of the interp, the mutex taken again. A code other than \<open>TCL_OK\<close> is logged
  (with the error information of the interp, of which the model has the result); so is
  the result when the request is gone.
\<close>

definition CheckControl_evaluated :: "nsloopctl \<Rightarrow> nat \<Rightarrow> int \<Rightarrow> string \<Rightarrow> check_yield \<times> nsloopctl" where
  "CheckControl_evaluated s loopPtr res str =
     (let s0 = (if res \<noteq> TCL_OK then s\<lparr>log := log s @ [TclErrorInfo str]\<rparr> else s);
          s1 = (case evalPtr (loopData s0 loopPtr) of
                  None \<Rightarrow> s0\<lparr>log := log s0 @ [Error (''nsloopctl: dropped result: '' @ str)]\<rparr>
                | Some e \<Rightarrow>
                    Ns_CondBroadcast
                      (s0\<lparr>evalData := (evalData s0)(e :=
                            (evalData s0 e)\<lparr>result := result (evalData s0 e) @ str,
                                           state := EVAL_DONE\<rparr>),
                          loopData := (loopData s0)(loopPtr :=
                            (loopData s0 loopPtr)\<lparr>evalPtr := None\<rparr>)\<rparr>))
      in if control (loopData s1 loopPtr) = LOOP_PAUSE
         then (CondWait str, s1)
         else CheckControl_loop s1 loopPtr str)"

text \<open>\<open>CheckControl\<close> from the return of \<open>Ns_CondWait\<close>, the mutex held again.\<close>

definition CheckControl_woken :: "nsloopctl \<Rightarrow> nat \<Rightarrow> string \<Rightarrow> check_yield \<times> nsloopctl" where
  "CheckControl_woken s loopPtr ires = CheckControl_loop s loopPtr ires"

section \<open>Loops and commands running side by side\<close>

text \<open>
  Where a loop command stands. \<open>WhileObjCmd\<close>, \<open>ForObjCmd\<close> and \<open>ForeachObjCmd\<close>
  share the skeleton
  \<^verbatim>\<open>EnterLoop(&data, objc, objv);
  while (1) { test; result = CheckControl(interp, &data);
              if (result == TCL_OK) { result = Tcl_EvalObjEx(interp, body, 0); }
              if ((result != TCL_OK) && (result != TCL_CONTINUE)) { break; } }
  LeaveLoop(&data);\<close>
  The loop is identified by the address of its \<open>data\<close>. \<open>LOutside\<close>: before \<open>EnterLoop\<close>
  or after \<open>LeaveLoop\<close>. \<open>LTest\<close>: between two iterations. \<open>LEvaluating\<close>: in
  \<open>CheckControl\<close>, running a script that was sent. \<open>LWaiting\<close>: in \<open>CheckControl\<close>,
  in \<open>Ns_CondWait\<close>. \<open>LBody\<close>: running the body. \<open>LExit\<close>: out of the \<open>while (1)\<close>
  with the given code, before \<open>LeaveLoop\<close>.
\<close>

datatype loop_pc = LOutside | LTest | LEvaluating | LWaiting string | LBody | LExit int

text \<open>
  Where a call of \<open>EvalObjCmd\<close> stands; the call is identified by the address of its
  \<open>eval\<close>. \<open>EReturned\<close> holds what the last call returned.
\<close>

datatype eval_pc = EIdle | EWaiting nat | EReturned int string

record config =
  shared :: nsloopctl
  loop_pc :: "nat \<Rightarrow> loop_pc"
  eval_pc :: "nat \<Rightarrow> eval_pc"

text \<open>
  What happens next, with what the surroundings decide: the thread and the time of an
  \<open>EnterLoop\<close>, the outcome of a test, of a body and of a script, the status of a
  timed wait.
\<close>

datatype event =
    Enter nat nat Ns_Time "string list"
  | Iterate nat string
  | Stop nat int
  | Evaluated nat int string
  | Woken nat
  | BodyDone nat int
  | Leave nat
  | Eval nat string string
  | TimedWait nat Ns_ReturnCode
  | Sig string LoopControl
  | Abort string
  | Init "nat option" nat nat
  | Cleanup nat

text \<open>After \<open>CheckControl\<close>: the body is evaluated when the result is \<open>TCL_OK\<close>.\<close>

definition after_check :: "check_yield \<Rightarrow> loop_pc" where
  "after_check y =
     (case y of
        Returned res ires \<Rightarrow> (if res = TCL_OK then LBody else LExit res)
      | EvalScript scr \<Rightarrow> LEvaluating
      | CondWait ires \<Rightarrow> LWaiting ires)"

definition after_eval :: "cmd_yield \<Rightarrow> eval_pc" where
  "after_eval y = (case y of CmdReturn res ires \<Rightarrow> EReturned res ires | CmdWait loopPtr \<Rightarrow> EWaiting loopPtr)"

definition checked :: "config \<Rightarrow> nat \<Rightarrow> check_yield \<times> nsloopctl \<Rightarrow> config" where
  "checked c p r = c\<lparr>shared := snd r, loop_pc := (loop_pc c)(p := after_check (fst r))\<rparr>"

definition evaled :: "config \<Rightarrow> nat \<Rightarrow> cmd_yield \<times> nsloopctl \<Rightarrow> config" where
  "evaled c e r = c\<lparr>shared := snd r, eval_pc := (eval_pc c)(e := after_eval (fst r))\<rparr>"

text \<open>One critical section of one loop or command; \<open>None\<close> when it cannot happen.\<close>

fun fire :: "config \<Rightarrow> event \<Rightarrow> config option" where
  "fire c (Enter p thread now objv) =
     (if loop_pc c p = LOutside
      then (case EnterLoop (shared c) p thread now objv of
              None \<Rightarrow> None
            | Some s \<Rightarrow> Some (c\<lparr>shared := s, loop_pc := (loop_pc c)(p := LTest)\<rparr>))
      else None)"
| "fire c (Iterate p ires) =
     (if loop_pc c p = LTest then Some (checked c p (CheckControl (shared c) p ires)) else None)"
| "fire c (Stop p res) =
     (if loop_pc c p = LTest then Some (c\<lparr>loop_pc := (loop_pc c)(p := LExit res)\<rparr>) else None)"
| "fire c (Evaluated p res str) =
     (if loop_pc c p = LEvaluating
      then Some (checked c p (CheckControl_evaluated (shared c) p res str))
      else None)"
| "fire c (Woken p) =
     (case loop_pc c p of
        LWaiting ires \<Rightarrow> Some (checked c p (CheckControl_woken (shared c) p ires))
      | _ \<Rightarrow> None)"
| "fire c (BodyDone p res) =
     (if loop_pc c p = LBody
      then Some (c\<lparr>loop_pc := (loop_pc c)(p :=
                   if res = TCL_OK \<or> res = TCL_CONTINUE then LTest else LExit res)\<rparr>)
      else None)"
| "fire c (Leave p) =
     (case loop_pc c p of
        LExit res \<Rightarrow> Some (c\<lparr>shared := LeaveLoop (shared c) p, loop_pc := (loop_pc c)(p := LOutside)\<rparr>)
      | _ \<Rightarrow> None)"
| "fire c (Eval e ident scr) =
     (case eval_pc c e of
        EWaiting loopPtr \<Rightarrow> None
      | _ \<Rightarrow> Some (evaled c e (EvalObjCmd (shared c) e ident scr)))"
| "fire c (TimedWait e status) =
     (case eval_pc c e of
        EWaiting loopPtr \<Rightarrow> Some (evaled c e (EvalObjCmd_wake (shared c) e loopPtr status))
      | _ \<Rightarrow> None)"
| "fire c (Sig ident signal) = Some (c\<lparr>shared := snd (Signal (shared c) ident signal)\<rparr>)"
| "fire c (Abort ident) = Some (c\<lparr>shared := snd (AbortObjCmd (shared c) ident)\<rparr>)"
| "fire c (Init tlsPtr threadPtr thread) =
     Some (c\<lparr>shared := InitInterp (shared c) tlsPtr threadPtr thread\<rparr>)"
| "fire c (Cleanup threadPtr) = Some (c\<lparr>shared := ThreadCleanup (shared c) threadPtr\<rparr>)"

fun run :: "config \<Rightarrow> event list \<Rightarrow> config option" where
  "run c [] = Some c"
| "run c (ev # evs) = (case fire c ev of None \<Rightarrow> None | Some c' \<Rightarrow> run c' evs)"

text \<open>\<open>P\<close> holds in every configuration that the events go through.\<close>

fun along :: "(config \<Rightarrow> bool) \<Rightarrow> config \<Rightarrow> event list \<Rightarrow> bool" where
  "along P c [] = P c"
| "along P c (ev # evs) = (P c \<and> (case fire c ev of None \<Rightarrow> False | Some c' \<Rightarrow> along P c' evs))"

text \<open>
  The module after \<open>Ns_ModuleInit\<close>, before any loop or command: both tables empty,
  the counter at its static value, the memory cleared.
\<close>

definition Ns_ModuleInit :: nsloopctl where
  "Ns_ModuleInit =
     \<lparr>loops = [], threads = [], next_id = 0, cond = 0, log = [],
      loopData = (\<lambda>a. \<lparr>control = LOOP_RUN, lid = [], tid = 0, spins = 0, etime = (0, 0),
                         hPtr = [], args = [], evalPtr = None\<rparr>),
      evalData = (\<lambda>a. \<lparr>state = EVAL_WAIT, code = TCL_OK, script = [], result = []\<rparr>),
      threadData = (\<lambda>a. \<lparr>cancel = False, thread_hPtr = []\<rparr>)\<rparr>"

definition start :: config where
  "start = \<lparr>shared = Ns_ModuleInit, loop_pc = (\<lambda>p. LOutside), eval_pc = (\<lambda>e. EIdle)\<rparr>"

text \<open>A configuration in which no loop runs, whatever the memory holds.\<close>

definition quiet :: "config \<Rightarrow> bool" where
  "quiet c \<longleftrightarrow> loops (shared c) = [] \<and> (\<forall>p. loop_pc c p = LOutside) \<and> (\<forall>e. eval_pc c e = EIdle)"

text \<open>The configuration after the given events, from the start.\<close>

definition scene :: "event list \<Rightarrow> config" where
  "scene evs = (case run start evs of Some c \<Rightarrow> c | None \<Rightarrow> start)"

text \<open>The equations that evaluate the model on a concrete input.\<close>

named_theorems model
declare Tcl_FindHashEntry_def [model] Tcl_GetHashValue_def [model] Tcl_CreateHashEntry_def [model]
  Tcl_SetHashValue_def [model] Tcl_DeleteHashEntry_def [model] hex_of.simps [model] hex_digit_def [model]
  EnterLoop_probe.simps [model] EnterLoop_def [model] Ns_CondBroadcast_def [model] LeaveLoop_drop_def [model]
  LeaveLoop_def [model] List_def [model] LoopsObjCmd_def [model] GetLoop_def [model] EvalObjCmd_def [model]
  EvalObjCmd_switch_def [model] EvalObjCmd_wake_def [model] Signal_def [model] Tcl_AsyncMark_def [model]
  AbortObjCmd_def [model] InitInterp_def [model] ThreadCleanup_def [model] CheckControl_loop_def [model]
  CheckControl_def [model] CheckControl_evaluated_def [model] CheckControl_woken_def [model]
  after_check_def [model] after_eval_def [model] checked_def [model] evaled_def [model]
  Ns_ModuleInit_def [model] start_def [model] scene_def [model]

section \<open>Invariants\<close>

text \<open>The loop is inside \<open>CheckControl\<close>, the mutex released.\<close>

definition in_checkpoint :: "config \<Rightarrow> nat \<Rightarrow> bool" where
  "in_checkpoint c p \<longleftrightarrow> (case loop_pc c p of LEvaluating \<Rightarrow> True | LWaiting ires \<Rightarrow> True | _ \<Rightarrow> False)"

text \<open>
  The table \<open>loops\<close> has one entry per key, its entries are the running loops under
  their ids, and the \<open>hPtr\<close> of a running loop is its own entry.
\<close>

definition registry_ok :: "config \<Rightarrow> bool" where
  "registry_ok c \<longleftrightarrow>
     distinct (map fst (loops (shared c))) \<and>
     set (loops (shared c)) = {(lid (loopData (shared c) p), Some p) |p. loop_pc c p \<noteq> LOutside} \<and>
     (\<forall>p. loop_pc c p = LOutside \<or> hPtr (loopData (shared c) p) = lid (loopData (shared c) p))"

text \<open>
  A request attached to a running loop is in the state \<open>EVAL_WAIT\<close>, and the command that
  sent it waits for that loop.
\<close>

definition requests_ok :: "config \<Rightarrow> bool" where
  "requests_ok c \<longleftrightarrow>
     (\<forall>q e. loop_pc c q = LOutside \<or> evalPtr (loopData (shared c) q) \<noteq> Some e \<or>
        (eval_pc c e = EWaiting q \<and> state (evalData (shared c) e) = EVAL_WAIT))"

text \<open>Two states with the same table of loops and the same ids and entries of the loops.\<close>

definition keeps :: "nsloopctl \<Rightarrow> nsloopctl \<Rightarrow> bool" where
  "keeps s s' \<longleftrightarrow>
     loops s' = loops s \<and>
     (\<forall>q. lid (loopData s' q) = lid (loopData s q) \<and> hPtr (loopData s' q) = hPtr (loopData s q))"

text \<open>The control flag of the loop is \<open>LOOP_PAUSE\<close>.\<close>

definition paused :: "nat \<Rightarrow> config \<Rightarrow> bool" where
  "paused p c \<longleftrightarrow> control (loopData (shared c) p) = LOOP_PAUSE"

text \<open>The control flag of the loop is \<open>LOOP_CANCEL\<close>.\<close>

definition canceled :: "nat \<Rightarrow> config \<Rightarrow> bool" where
  "canceled p c \<longleftrightarrow> control (loopData (shared c) p) = LOOP_CANCEL"

text \<open>The event is a call of \<open>CheckControl\<close> by the loop: one visit of the checkpoint.\<close>

definition visit :: "nat \<Rightarrow> event \<Rightarrow> bool" where
  "visit p ev = (case ev of Iterate q ires \<Rightarrow> q = p | _ \<Rightarrow> False)"

definition visits :: "nat \<Rightarrow> event list \<Rightarrow> nat" where
  "visits p evs = length (filter (visit p) evs)"

text \<open>The event is the \<open>EnterLoop\<close> of the loop, which sets \<open>spins\<close> to 0.\<close>

definition enters :: "nat \<Rightarrow> event \<Rightarrow> bool" where
  "enters p ev = (case ev of Enter q thread now objv \<Rightarrow> q = p | _ \<Rightarrow> False)"

section \<open>Evaluating the model\<close>

lemma hex_of_204: "hex_of 204 = ''cc''"
  by (simp add: hex_of.simps hex_digit_def)

section \<open>Loop ids\<close>

lemma hex_digit_inj: "d < 16 \<Longrightarrow> e < 16 \<Longrightarrow> hex_digit d = hex_digit e \<Longrightarrow> d = e"
  unfolding hex_digit_def
  by (subst (asm) nth_eq_iff_index_eq) simp_all

lemma hex_of_not_Nil: "hex_of n \<noteq> []"
  by (subst hex_of.simps) simp

lemma hex_of_inj: "hex_of n = hex_of m \<Longrightarrow> n = m"
proof (induction n arbitrary: m rule: hex_of.induct)
  case (1 n)
  show ?case
  proof (cases "n < 16")
    case small: True
    show ?thesis
    proof (cases "m < 16")
      case True
      with small "1.prems" show ?thesis
        by (simp add: hex_of.simps [of n] hex_of.simps [of m] hex_digit_inj)
    next
      case False
      with small "1.prems" show ?thesis
        by (simp add: hex_of.simps [of n] hex_of.simps [of m] hex_of_not_Nil hex_of_not_Nil [symmetric])
    qed
  next
    case big: False
    show ?thesis
    proof (cases "m < 16")
      case True
      with big "1.prems" show ?thesis
        by (simp add: hex_of.simps [of n] hex_of.simps [of m] hex_of_not_Nil hex_of_not_Nil [symmetric])
    next
      case False
      with big "1.prems" have "hex_of (n div 16) = hex_of (m div 16)"
        and "hex_digit (n mod 16) = hex_digit (m mod 16)"
        by (simp_all add: hex_of.simps [of n] hex_of.simps [of m])
      with big "1.IH" have "n div 16 = m div 16" and "n mod 16 = m mod 16"
        by (simp_all add: hex_digit_inj)
      then show ?thesis
        by (metis div_mult_mod_eq)
    qed
  qed
qed

text \<open>The ids that the counter gives from \<open>nxt\<close> on.\<close>

lemma EnterLoop_probe_step:
  "EnterLoop_probe tbl nxt =
     (if hex_of (unat nxt) \<in> set (map fst tbl) then EnterLoop_probe tbl (nxt + 1)
      else Some (hex_of (unat nxt), tbl @ [(hex_of (unat nxt), None)], nxt + 1))"
  by (subst EnterLoop_probe.simps) (simp add: Tcl_CreateHashEntry_def)

lemma EnterLoop_probe_first_free:
  "(\<forall>j<k. hex_of (unat (nxt + of_nat j)) \<in> set (map fst tbl)) \<Longrightarrow>
   hex_of (unat (nxt + of_nat k)) \<notin> set (map fst tbl) \<Longrightarrow>
   EnterLoop_probe tbl nxt =
     Some (hex_of (unat (nxt + of_nat k)), tbl @ [(hex_of (unat (nxt + of_nat k)), None)],
           nxt + of_nat k + 1)"
proof (induction k arbitrary: nxt)
  case 0
  then show ?case
    by (subst EnterLoop_probe_step) simp
next
  case (Suc k)
  have shift: "nxt + 1 + of_nat j = nxt + of_nat (Suc j)" for j
    by simp
  from Suc.prems(1) [rule_format, of 0] have taken: "hex_of (unat nxt) \<in> set (map fst tbl)"
    by simp
  have "hex_of (unat (nxt + 1 + of_nat j)) \<in> set (map fst tbl)" if "j < k" for j
    using Suc.prems(1) [rule_format, of "Suc j"] that by (simp only: shift Suc_less_eq)
  moreover from Suc.prems(2) have "hex_of (unat (nxt + 1 + of_nat k)) \<notin> set (map fst tbl)"
    unfolding shift .
  ultimately have "EnterLoop_probe tbl (nxt + 1) =
     Some (hex_of (unat (nxt + 1 + of_nat k)), tbl @ [(hex_of (unat (nxt + 1 + of_nat k)), None)],
           nxt + 1 + of_nat k + 1)"
    by (intro Suc.IH) simp_all
  with taken show ?case
    by (subst EnterLoop_probe_step) (simp only: shift if_True)
qed

lemma EnterLoop_probe_Some:
  assumes "EnterLoop_probe tbl nxt = Some r"
  shows "\<exists>k. (\<forall>j<k. hex_of (unat (nxt + of_nat j)) \<in> set (map fst tbl)) \<and>
       hex_of (unat (nxt + of_nat k)) \<notin> set (map fst tbl) \<and>
       r = (hex_of (unat (nxt + of_nat k)), tbl @ [(hex_of (unat (nxt + of_nat k)), None)],
            nxt + of_nat k + 1)"
proof -
  let ?P = "\<lambda>tbl nxt r. \<exists>k. (\<forall>j<k. hex_of (unat (nxt + of_nat j)) \<in> set (map fst tbl)) \<and>
       hex_of (unat (nxt + of_nat k)) \<notin> set (map fst tbl) \<and>
       r = (hex_of (unat (nxt + of_nat k)), tbl @ [(hex_of (unat (nxt + of_nat k)), None)],
            nxt + of_nat k + 1)"
  have step: "?P tbl nxt r"
    if IH: "\<And>tbl nxt r. probe tbl nxt = Some r \<Longrightarrow> ?P tbl nxt r"
      and call: "(if snd (Tcl_CreateHashEntry tbl (hex_of (unat nxt)))
        then Some (hex_of (unat nxt), fst (Tcl_CreateHashEntry tbl (hex_of (unat nxt))), nxt + 1)
        else probe (fst (Tcl_CreateHashEntry tbl (hex_of (unat nxt)))) (nxt + 1)) = Some r"
    for probe tbl nxt r
  proof (cases "hex_of (unat nxt) \<in> set (map fst tbl)")
    case False
    with call have "r = (hex_of (unat nxt), tbl @ [(hex_of (unat nxt), None)], nxt + 1)"
      by (simp add: Tcl_CreateHashEntry_def)
    with False show ?thesis
      by (intro exI [of _ 0]) simp
  next
    case True
    with call have "probe tbl (nxt + 1) = Some r"
      by (simp add: Tcl_CreateHashEntry_def)
    then obtain k where k: "\<forall>j<k. hex_of (unat (nxt + 1 + of_nat j)) \<in> set (map fst tbl)"
      "hex_of (unat (nxt + 1 + of_nat k)) \<notin> set (map fst tbl)"
      "r = (hex_of (unat (nxt + 1 + of_nat k)), tbl @ [(hex_of (unat (nxt + 1 + of_nat k)), None)],
            nxt + 1 + of_nat k + 1)"
      using IH by blast
    have shift: "nxt + 1 + of_nat j = nxt + of_nat (Suc j)" for j
      by simp
    have "hex_of (unat (nxt + of_nat j)) \<in> set (map fst tbl)" if "j < Suc k" for j
    proof (cases j)
      case 0
      with True show ?thesis by simp
    next
      case (Suc i)
      with that k(1) show ?thesis
        unfolding shift by simp
    qed
    with k(2,3) show ?thesis
      unfolding shift by (intro exI [of _ "Suc k"]) simp
  qed
  show ?thesis
    by (rule EnterLoop_probe.raw_induct [where P = ?P, OF step assms])
qed

lemma counter_ids_inj: "inj_on (\<lambda>k. hex_of (unat (nxt + of_nat k :: 32 word))) {..<2 ^ 32}"
proof (rule inj_onI)
  fix a b :: nat
  assume a: "a \<in> {..<2 ^ 32}" and b: "b \<in> {..<2 ^ 32}"
    and eq: "hex_of (unat (nxt + of_nat a :: 32 word)) = hex_of (unat (nxt + of_nat b :: 32 word))"
  from eq have "unat (nxt + of_nat a) = unat (nxt + of_nat b)"
    by (rule hex_of_inj)
  then have "nxt + of_nat a = nxt + of_nat b"
    by (rule unsigned_word_eqI)
  then have "take_bit 32 a = take_bit 32 b"
    by (simp add: word_of_nat_eq_iff)
  with a b show "a = b"
    by (simp add: take_bit_nat_eq_self)
qed

lemma free_id_exists:
  assumes "length tbl < 2 ^ 32"
  shows "\<exists>k. hex_of (unat (nxt + of_nat k :: 32 word)) \<notin> set (map fst tbl)"
proof (rule ccontr)
  let ?ids = "(\<lambda>k. hex_of (unat (nxt + of_nat k))) ` {..<2 ^ 32 :: nat}"
  assume "\<not> ?thesis"
  then have "?ids \<subseteq> set (map fst tbl)"
    by blast
  then have "card ?ids \<le> card (set (map fst tbl))"
    by (rule card_mono [OF finite_set])
  also have "\<dots> \<le> length (map fst tbl)"
    by (rule card_length)
  finally have "card ?ids \<le> length tbl"
    by (simp only: length_map)
  moreover have "card ?ids = 2 ^ 32"
    by (simp only: card_image [OF counter_ids_inj] card_lessThan)
  ultimately show False
    using assms by linarith
qed

lemma EnterLoop_probe_total:
  assumes "length tbl < 2 ^ 32"
  shows "\<exists>r. EnterLoop_probe tbl nxt = Some r"
proof -
  define free where "free k \<longleftrightarrow> hex_of (unat (nxt + of_nat k)) \<notin> set (map fst tbl)" for k
  from free_id_exists [OF assms] have "\<exists>k. free k"
    by (simp only: free_def)
  then obtain k where "free k" and "\<forall>j<k. \<not> free j"
    by (subst (asm) exists_least_iff) blast
  then have "EnterLoop_probe tbl nxt =
     Some (hex_of (unat (nxt + of_nat k)), tbl @ [(hex_of (unat (nxt + of_nat k)), None)],
           nxt + of_nat k + 1)"
    unfolding free_def by (intro EnterLoop_probe_first_free) simp_all
  then show ?thesis ..
qed

lemma Tcl_SetHashValue_absent:
  "key \<notin> set (map fst tbl) \<Longrightarrow> Tcl_SetHashValue tbl key v = tbl"
  by (induction tbl) (auto simp: Tcl_SetHashValue_def)

lemma Tcl_SetHashValue_new:
  "key \<notin> set (map fst tbl) \<Longrightarrow> Tcl_SetHashValue (tbl @ [(key, None)]) key v = tbl @ [(key, v)]"
  using Tcl_SetHashValue_absent [of key tbl v] by (simp add: Tcl_SetHashValue_def)

lemma map_of_new:
  "key \<notin> fst ` set tbl \<Longrightarrow> ([key \<mapsto> v] ++ map_of tbl) key = Some v"
  by (simp add: map_of_eq_None_iff [THEN iffD2] map_add_def)

lemma EnterLoop_Some:
  assumes "EnterLoop s loopPtr thread now objv = Some s'"
  shows "\<exists>k. (\<forall>j<k. hex_of (unat (next_id s + of_nat j)) \<in> set (map fst (loops s))) \<and>
      hex_of (unat (next_id s + of_nat k)) \<notin> set (map fst (loops s)) \<and>
      s' = s\<lparr>loops := loops s @ [(hex_of (unat (next_id s + of_nat k)), Some loopPtr)],
             next_id := next_id s + of_nat k + 1,
             loopData := (loopData s)(loopPtr :=
               \<lparr>control = LOOP_RUN, lid = hex_of (unat (next_id s + of_nat k)), tid = thread,
                spins = 0, etime = now, hPtr = hex_of (unat (next_id s + of_nat k)),
                args = objv, evalPtr = None\<rparr>)\<rparr>"
proof -
  from assms obtain r where r: "EnterLoop_probe (loops s) (next_id s) = Some r"
    by (auto simp: EnterLoop_def split: option.splits)
  from EnterLoop_probe_Some [OF r] obtain k
    where k: "\<forall>j<k. hex_of (unat (next_id s + of_nat j)) \<in> set (map fst (loops s))"
      "hex_of (unat (next_id s + of_nat k)) \<notin> set (map fst (loops s))"
      "r = (hex_of (unat (next_id s + of_nat k)),
            loops s @ [(hex_of (unat (next_id s + of_nat k)), None)], next_id s + of_nat k + 1)"
    by blast
  from assms r k(3) have "s' = s\<lparr>loops := loops s @ [(hex_of (unat (next_id s + of_nat k)), Some loopPtr)],
             next_id := next_id s + of_nat k + 1,
             loopData := (loopData s)(loopPtr :=
               \<lparr>control = LOOP_RUN, lid = hex_of (unat (next_id s + of_nat k)), tid = thread,
                spins = 0, etime = now, hPtr = hex_of (unat (next_id s + of_nat k)),
                args = objv, evalPtr = None\<rparr>)\<rparr>"
    by (simp add: EnterLoop_def Tcl_SetHashValue_new [OF k(2)])
  with k(1,2) show ?thesis
    by blast
qed

lemma EnterLoop_total:
  "length (loops s) < 2 ^ 32 \<Longrightarrow> \<exists>s'. EnterLoop s loopPtr thread now objv = Some s'"
  using EnterLoop_probe_total [of "loops s" "next_id s"]
  by (auto simp: EnterLoop_def)

text \<open>
  C8. \<open>EnterLoop\<close> returns with a fresh id: the id it leaves in \<open>lid\<close> was not a key of
  \<open>loops\<close> before, it is the first one, counting from \<open>next\<close>, that was not, every id
  tried before it was a key already, and afterwards \<open>loops\<close> has one more entry, which
  maps that id to the new \<open>LoopData\<close>, so that \<open>GetLoop\<close> finds it, and finds under every
  other id what it found before. No collision
  reaches the caller: the only other behaviour is that the probing goes on, and with
  fewer than \<open>2 ^ 32\<close> loops in the table it ends.
\<close>

theorem EnterLoop_fresh_id:
  "(length (loops s) < 2 ^ 32 \<longrightarrow> EnterLoop s loopPtr thread now objv \<noteq> None) \<and>
   (\<forall>s'. EnterLoop s loopPtr thread now objv = Some s' \<longrightarrow>
      lid (loopData s' loopPtr) \<notin> set (map fst (loops s)) \<and>
      set (loops s') = insert (lid (loopData s' loopPtr), Some loopPtr) (set (loops s)) \<and>
      length (loops s') = length (loops s) + 1 \<and>
      GetLoop s' (lid (loopData s' loopPtr)) = (Some loopPtr, '''') \<and>
      (\<forall>ident. ident \<noteq> lid (loopData s' loopPtr) \<longrightarrow> GetLoop s' ident = GetLoop s ident) \<and>
      (\<exists>k. (\<forall>j<k. hex_of (unat (next_id s + of_nat j)) \<in> set (map fst (loops s))) \<and>
           lid (loopData s' loopPtr) = hex_of (unat (next_id s + of_nat k)) \<and>
           next_id s' = next_id s + of_nat k + 1))"
proof (intro conjI allI impI)
  assume "length (loops s) < 2 ^ 32"
  from EnterLoop_total [OF this] show "EnterLoop s loopPtr thread now objv \<noteq> None"
    by simp
next
  fix s' assume "EnterLoop s loopPtr thread now objv = Some s'"
  from EnterLoop_Some [OF this] obtain k
    where k: "\<forall>j<k. hex_of (unat (next_id s + of_nat j)) \<in> set (map fst (loops s))"
      "hex_of (unat (next_id s + of_nat k)) \<notin> set (map fst (loops s))"
      and s': "s' = s\<lparr>loops := loops s @ [(hex_of (unat (next_id s + of_nat k)), Some loopPtr)],
             next_id := next_id s + of_nat k + 1,
             loopData := (loopData s)(loopPtr :=
               \<lparr>control = LOOP_RUN, lid = hex_of (unat (next_id s + of_nat k)), tid = thread,
                spins = 0, etime = now, hPtr = hex_of (unat (next_id s + of_nat k)),
                args = objv, evalPtr = None\<rparr>)\<rparr>"
    by blast
  from k(2) s' show "lid (loopData s' loopPtr) \<notin> set (map fst (loops s))"
    by simp
  from s' show "set (loops s') = insert (lid (loopData s' loopPtr), Some loopPtr) (set (loops s))"
    by simp
  from s' show "length (loops s') = length (loops s) + 1"
    by simp
  from k(2) s' show "GetLoop s' (lid (loopData s' loopPtr)) = (Some loopPtr, '''')"
    by (simp add: GetLoop_def Tcl_FindHashEntry_def Tcl_GetHashValue_def map_of_new)
  show "GetLoop s' ident = GetLoop s ident" if "ident \<noteq> lid (loopData s' loopPtr)" for ident
    using that s'
    by (auto simp: GetLoop_def Tcl_FindHashEntry_def Tcl_GetHashValue_def map_add_def
        split: option.splits)
  from k(1) s' show "\<exists>k. (\<forall>j<k. hex_of (unat (next_id s + of_nat j)) \<in> set (map fst (loops s))) \<and>
           lid (loopData s' loopPtr) = hex_of (unat (next_id s + of_nat k)) \<and>
           next_id s' = next_id s + of_nat k + 1"
    by (intro exI [of _ k]) simp
qed

theorem EnterLoop_fresh_id_witness:
  "EnterLoop (Ns_ModuleInit\<lparr>loops := [(''0'', Some 5), (''1'', Some 6)]\<rparr>) 7 204 (5, 0)
      [''while'', ''1'', ''body''] \<noteq> None \<and>
   (case EnterLoop (Ns_ModuleInit\<lparr>loops := [(''0'', Some 5), (''1'', Some 6)]\<rparr>) 7 204 (5, 0)
      [''while'', ''1'', ''body''] of
      None \<Rightarrow> False
    | Some s' \<Rightarrow> lid (loopData s' 7) = ''2'' \<and> next_id s' = 3 \<and>
        loops s' = [(''0'', Some 5), (''1'', Some 6), (''2'', Some 7)] \<and>
        GetLoop s' ''2'' = (Some 7, ''''))"
  using EnterLoop_fresh_id [of "Ns_ModuleInit\<lparr>loops := [(''0'', Some 5), (''1'', Some 6)]\<rparr>" 7 204
      "(5, 0)" "[''while'', ''1'', ''body'']"]
  by (simp add: model)

section \<open>Aborting a thread\<close>

text \<open>
  C9. \<open>loopctl_abort\<close>: with no entry for the thread id in \<open>threads\<close> the command fails with
  \<open>no such active thread\<close> and changes nothing; with an entry it marks the handler of that
  thread and returns \<open>TCL_OK\<close>. Either way the table \<open>loops\<close> and every \<open>LoopData\<close> and
  \<open>EvalData\<close> stay as they were.
\<close>

theorem AbortObjCmd_marks_thread_only:
  "(ident \<notin> set (map fst (threads s)) \<longrightarrow>
      AbortObjCmd s ident = ((TCL_ERROR, ''no such active thread: '' @ ident), s)) \<and>
   (\<forall>threadPtr. map_of (threads s) ident = Some (Some threadPtr) \<longrightarrow>
      AbortObjCmd s ident = ((TCL_OK, ''''), Tcl_AsyncMark s threadPtr) \<and>
      cancel (threadData (snd (AbortObjCmd s ident)) threadPtr)) \<and>
   loops (snd (AbortObjCmd s ident)) = loops s \<and>
   loopData (snd (AbortObjCmd s ident)) = loopData s \<and>
   evalData (snd (AbortObjCmd s ident)) = evalData s"
  by (auto simp: AbortObjCmd_def Tcl_FindHashEntry_def Tcl_GetHashValue_def Tcl_AsyncMark_def
      map_of_eq_None_iff [symmetric] split: option.splits)

theorem AbortObjCmd_marks_thread_only_witness:
  "AbortObjCmd (InitInterp Ns_ModuleInit None 7 204) ''dd'' =
     ((TCL_ERROR, ''no such active thread: dd''), InitInterp Ns_ModuleInit None 7 204) \<and>
   fst (AbortObjCmd (InitInterp Ns_ModuleInit None 7 204) ''cc'') = (TCL_OK, '''') \<and>
   \<not> cancel (threadData (InitInterp Ns_ModuleInit None 7 204) 7) \<and>
   cancel (threadData (snd (AbortObjCmd (InitInterp Ns_ModuleInit None 7 204) ''cc'')) 7)"
  using AbortObjCmd_marks_thread_only [of "''dd''" "InitInterp Ns_ModuleInit None 7 204"]
    AbortObjCmd_marks_thread_only [of "''cc''" "InitInterp Ns_ModuleInit None 7 204"]
  by (simp add: InitInterp_def Ns_ModuleInit_def Tcl_CreateHashEntry_def Tcl_SetHashValue_def
      Tcl_AsyncMark_def hex_of_204)

section \<open>Sending a script to a loop\<close>

text \<open>
  C4. \<open>loopctl_eval\<close> on an id that is not in \<open>loops\<close> fails with \<open>no such loop id\<close>; on a
  loop whose \<open>evalPtr\<close> is set it fails with \<open>eval pending\<close>. In both cases the whole
  state is as before: no \<open>EvalData\<close> is written, the pending one and the \<open>evalPtr\<close> of
  the loop are untouched.
\<close>

theorem EvalObjCmd_rejects:
  "(ident \<notin> set (map fst (loops s)) \<longrightarrow>
      EvalObjCmd s eval ident scr = (CmdReturn TCL_ERROR (''no such loop id: '' @ ident), s)) \<and>
   (\<forall>loopPtr e. map_of (loops s) ident = Some (Some loopPtr) \<and>
        evalPtr (loopData s loopPtr) = Some e \<longrightarrow>
      EvalObjCmd s eval ident scr = (CmdReturn TCL_ERROR ''eval pending'', s))"
  by (auto simp: EvalObjCmd_def GetLoop_def Tcl_FindHashEntry_def Tcl_GetHashValue_def
      map_of_eq_None_iff [symmetric] split: option.splits)

theorem EvalObjCmd_rejects_witness:
  "EvalObjCmd (shared (scene [Enter 1 204 (5, 0) [''while'', ''1'', ''body''], Eval 10 ''0'' ''set x 1'']))
      11 ''1'' ''set y 2'' =
     (CmdReturn TCL_ERROR ''no such loop id: 1'',
      shared (scene [Enter 1 204 (5, 0) [''while'', ''1'', ''body''], Eval 10 ''0'' ''set x 1''])) \<and>
   EvalObjCmd (shared (scene [Enter 1 204 (5, 0) [''while'', ''1'', ''body''], Eval 10 ''0'' ''set x 1'']))
      11 ''0'' ''set y 2'' =
     (CmdReturn TCL_ERROR ''eval pending'',
      shared (scene [Enter 1 204 (5, 0) [''while'', ''1'', ''body''], Eval 10 ''0'' ''set x 1''])) \<and>
   evalPtr (loopData (shared (scene [Enter 1 204 (5, 0) [''while'', ''1'', ''body''],
      Eval 10 ''0'' ''set x 1''])) 1) = Some 10"
  using EvalObjCmd_rejects [of "''1''"
      "shared (scene [Enter 1 204 (5, 0) [''while'', ''1'', ''body''], Eval 10 ''0'' ''set x 1''])"
      11 "''set y 2''"]
    EvalObjCmd_rejects [of "''0''"
      "shared (scene [Enter 1 204 (5, 0) [''while'', ''1'', ''body''], Eval 10 ''0'' ''set x 1''])"
      11 "''set y 2''"]
  by (simp add: model)

section \<open>What the checkpoint returns\<close>

text \<open>
  C10. When \<open>Tcl_EvalEx\<close> returns a code other than \<open>TCL_OK\<close> for a script that was sent and
  the request is still attached, \<open>CheckControl\<close> appends the result of the interp to the
  request, sets \<open>EVAL_DONE\<close>, clears \<open>evalPtr\<close> and broadcasts, as it does for \<open>TCL_OK\<close>; the
  code only adds an entry to the log. The control flag is not touched, and the checkpoint
  goes on as usual: with \<open>LOOP_RUN\<close> it returns \<open>TCL_OK\<close> and the body is evaluated, with
  \<open>LOOP_PAUSE\<close> it waits and returns \<open>TCL_OK\<close> from the same call once it wakes up with
  \<open>LOOP_RUN\<close>, and only with \<open>LOOP_CANCEL\<close> it returns \<open>TCL_ERROR\<close>.
\<close>

theorem CheckControl_failed_script:
  "res \<noteq> TCL_OK \<Longrightarrow> evalPtr (loopData s p) = Some e \<Longrightarrow>
   (case CheckControl_evaluated s p res str of
      (y, s') \<Rightarrow>
        result (evalData s' e) = result (evalData s e) @ str \<and>
        state (evalData s' e) = EVAL_DONE \<and>
        evalPtr (loopData s' p) = None \<and>
        cond s' = cond s + 1 \<and>
        log s' = log s @ [TclErrorInfo str] \<and>
        control (loopData s' p) = control (loopData s p) \<and>
        loops s' = loops s \<and>
        y = fst (CheckControl_evaluated s p TCL_OK str) \<and>
        y = (case control (loopData s p) of
               LOOP_RUN \<Rightarrow> Returned TCL_OK str
             | LOOP_PAUSE \<Rightarrow> CondWait str
             | LOOP_CANCEL \<Rightarrow> Returned TCL_ERROR ''nsloopctl: loop canceled: returning TCL_ERROR'') \<and>
        (control (loopData s p) = LOOP_RUN \<longrightarrow> after_check y = LBody) \<and>
        (\<forall>s2. evalPtr (loopData s2 p) = None \<and> control (loopData s2 p) = LOOP_RUN \<longrightarrow>
           CheckControl_woken s2 p str = (Returned TCL_OK str, s2) \<and>
           after_check (fst (CheckControl_woken s2 p str)) = LBody))"
  by (cases "control (loopData s p)")
    (simp_all add: CheckControl_evaluated_def CheckControl_loop_def CheckControl_woken_def
      Ns_CondBroadcast_def after_check_def)

theorem CheckControl_failed_script_witness:
  "loop_pc (scene [Enter 1 204 (5, 0) [''while'', ''1'', ''body''], Eval 10 ''0'' ''error boom'',
      Iterate 1 []]) 1 = LEvaluating \<and>
   evalPtr (loopData (shared (scene [Enter 1 204 (5, 0) [''while'', ''1'', ''body''],
      Eval 10 ''0'' ''error boom'', Iterate 1 []])) 1) = Some 10 \<and>
   CheckControl_evaluated (shared (scene [Enter 1 204 (5, 0) [''while'', ''1'', ''body''],
      Eval 10 ''0'' ''error boom'', Iterate 1 []])) 1 TCL_ERROR ''boom'' =
     (Returned TCL_OK ''boom'',
      shared (scene [Enter 1 204 (5, 0) [''while'', ''1'', ''body''],
        Eval 10 ''0'' ''error boom'', Iterate 1 [], Evaluated 1 TCL_ERROR ''boom''])) \<and>
   loop_pc (scene [Enter 1 204 (5, 0) [''while'', ''1'', ''body''], Eval 10 ''0'' ''error boom'',
      Iterate 1 [], Evaluated 1 TCL_ERROR ''boom'']) 1 = LBody \<and>
   state (evalData (shared (scene [Enter 1 204 (5, 0) [''while'', ''1'', ''body''],
      Eval 10 ''0'' ''error boom'', Iterate 1 [], Evaluated 1 TCL_ERROR ''boom''])) 10) = EVAL_DONE"
  using CheckControl_failed_script [of TCL_ERROR
      "shared (scene [Enter 1 204 (5, 0) [''while'', ''1'', ''body''],
        Eval 10 ''0'' ''error boom'', Iterate 1 []])" 1 10 "''boom''"]
  by (simp add: model)

text \<open>
  C2 (what the code does). A loop is sent the script \<open>error boom\<close>; its checkpoint evaluates
  it, \<open>Tcl_EvalEx\<close> returns \<open>TCL_ERROR\<close> with the result \<open>boom\<close>, and the request becomes
  \<open>EVAL_DONE\<close>. \<open>loopctl_eval\<close> then returns \<open>boom\<close> with the code \<open>TCL_OK\<close>: \<open>CheckControl\<close>
  never stores the code of the script in \<open>evalPtr->code\<close>, which \<open>EvalObjCmd\<close> set to
  \<open>TCL_OK\<close> and returns.
\<close>

theorem EvalObjCmd_returns_TCL_OK_for_failed_script:
  "eval_pc (scene [Enter 1 204 (5, 0) [''while'', ''1'', ''body''], Eval 10 ''0'' ''error boom'',
      Iterate 1 [], Evaluated 1 TCL_ERROR ''boom'', TimedWait 10 NS_OK]) 10 =
     EReturned TCL_OK ''boom''"
  by (simp add: model)

section \<open>What each critical section changes\<close>

lemma after_check_active [simp]: "after_check y \<noteq> LOutside"
  by (simp add: after_check_def split: check_yield.splits)

lemma CheckControl_loop_state [simp]: "snd (CheckControl_loop s p ires) = s"
  by (simp add: CheckControl_loop_def split: option.splits)

lemma CheckControl_woken_state [simp]: "snd (CheckControl_woken s p ires) = s"
  by (simp add: CheckControl_woken_def)

lemma CheckControl_state:
  "snd (CheckControl s p ires) =
     s\<lparr>loopData := (loopData s)(p := (loopData s p)\<lparr>spins := spins (loopData s p) + 1\<rparr>)\<rparr>"
  by (simp add: CheckControl_def)

lemma CheckControl_evaluated_state:
  "snd (CheckControl_evaluated s p res str) =
     (case evalPtr (loopData s p) of
        None \<Rightarrow> s\<lparr>log := (if res \<noteq> TCL_OK then log s @ [TclErrorInfo str] else log s) @
                      [Error (''nsloopctl: dropped result: '' @ str)]\<rparr>
      | Some e \<Rightarrow>
          s\<lparr>log := (if res \<noteq> TCL_OK then log s @ [TclErrorInfo str] else log s),
            evalData := (evalData s)(e :=
              (evalData s e)\<lparr>result := result (evalData s e) @ str, state := EVAL_DONE\<rparr>),
            loopData := (loopData s)(p := (loopData s p)\<lparr>evalPtr := None\<rparr>),
            cond := cond s + 1\<rparr>)"
  by (simp add: CheckControl_evaluated_def Ns_CondBroadcast_def Let_def split: option.splits)

lemma GetLoop_cases:
  obtains (absent) "GetLoop s ident = (None, ''no such loop id: '' @ ident)"
  | (null) "GetLoop s ident = (None, [])"
  | (found) p where "GetLoop s ident = (Some p, [])"
  by (cases "ident \<in> set (map fst (loops s))"; cases "Tcl_GetHashValue (loops s) ident")
    (simp_all add: GetLoop_def Tcl_FindHashEntry_def)

lemma EvalObjCmd_cases:
  obtains (failed) res msg where "EvalObjCmd s e ident scr = (CmdReturn res msg, s)"
  | (queued) p where "evalPtr (loopData s p) = None"
      "EvalObjCmd s e ident scr =
         (CmdWait p,
          s\<lparr>evalData := (evalData s)(e :=
               \<lparr>state = EVAL_WAIT, code = TCL_OK, script = scr, result = []\<rparr>),
             loopData := (loopData s)(p := (loopData s p)\<lparr>evalPtr := Some e\<rparr>),
             cond := cond s + 1\<rparr>)"
proof (cases s ident rule: GetLoop_cases)
  case absent
  then show ?thesis
    by (intro failed) (simp add: EvalObjCmd_def)
next
  case null
  then show ?thesis
    by (intro failed) (simp add: EvalObjCmd_def)
next
  case (found p)
  show ?thesis
  proof (cases "evalPtr (loopData s p)")
    case None
    with found show ?thesis
      by (intro queued [of p]) (simp_all add: EvalObjCmd_def Ns_CondBroadcast_def)
  next
    case (Some a)
    with found show ?thesis
      by (intro failed) (simp add: EvalObjCmd_def)
  qed
qed

lemma EvalObjCmd_wake_cases:
  obtains (again) "status = NS_OK" "state (evalData s e) = EVAL_WAIT"
      "EvalObjCmd_wake s e p status = (CmdWait p, s)"
  | (timeout) "state (evalData s e) = EVAL_WAIT"
      "EvalObjCmd_wake s e p status =
         (CmdReturn TCL_ERROR ''timeout: result dropped'',
          s\<lparr>loopData := (loopData s)(p := (loopData s p)\<lparr>evalPtr := None\<rparr>)\<rparr>)"
  | (dropped) "state (evalData s e) = EVAL_DROP"
      "EvalObjCmd_wake s e p status = (CmdReturn TCL_ERROR ''dropped: loop exited'', s)"
  | (finished) "state (evalData s e) = EVAL_DONE"
      "EvalObjCmd_wake s e p status =
         (CmdReturn (code (evalData s e)) (result (evalData s e)), s)"
proof (cases "state (evalData s e)")
  case EVAL_WAIT
  then show ?thesis
    by (cases "status = NS_OK")
      (auto intro: again timeout simp: EvalObjCmd_wake_def EvalObjCmd_switch_def)
next
  case EVAL_DONE
  then show ?thesis
    by (intro finished) (simp_all add: EvalObjCmd_wake_def EvalObjCmd_switch_def)
next
  case EVAL_DROP
  then show ?thesis
    by (intro dropped) (simp_all add: EvalObjCmd_wake_def EvalObjCmd_switch_def)
qed

lemma Signal_cases:
  obtains (failed) "snd (Signal s ident signal) = s"
  | (changed) p where
      "snd (Signal s ident signal) =
         s\<lparr>loopData := (loopData s)(p := (loopData s p)\<lparr>control := signal\<rparr>), cond := cond s + 1\<rparr>"
proof (cases s ident rule: GetLoop_cases)
  case absent
  then show ?thesis
    by (intro failed) (simp add: Signal_def)
next
  case null
  then show ?thesis
    by (intro failed) (simp add: Signal_def)
next
  case (found p)
  then show ?thesis
    by (intro changed [of p]) (simp add: Signal_def Ns_CondBroadcast_def)
qed

lemma AbortObjCmd_frame [simp]:
  "loops (snd (AbortObjCmd s ident)) = loops s"
  "loopData (snd (AbortObjCmd s ident)) = loopData s"
  "evalData (snd (AbortObjCmd s ident)) = evalData s"
  by (simp_all add: AbortObjCmd_def Tcl_AsyncMark_def split: option.splits)

lemma InitInterp_frame [simp]:
  "loops (InitInterp s tlsPtr threadPtr thread) = loops s"
  "loopData (InitInterp s tlsPtr threadPtr thread) = loopData s"
  "evalData (InitInterp s tlsPtr threadPtr thread) = evalData s"
  by (simp_all add: InitInterp_def split: option.splits)

lemma ThreadCleanup_frame [simp]:
  "loops (ThreadCleanup s threadPtr) = loops s"
  "loopData (ThreadCleanup s threadPtr) = loopData s"
  "evalData (ThreadCleanup s threadPtr) = evalData s"
  by (simp_all add: ThreadCleanup_def)

lemma LeaveLoop_frame [simp]:
  "loops (LeaveLoop s p) = Tcl_DeleteHashEntry (loops s) (hPtr (loopData s p))"
  "loopData (LeaveLoop s p) = loopData s"
  "evalData (LeaveLoop s p) =
     (case evalPtr (loopData s p) of
        None \<Rightarrow> evalData s
      | Some e \<Rightarrow> (evalData s)(e := (evalData s e)\<lparr>state := EVAL_DROP\<rparr>))"
  "cond (LeaveLoop s p) = (case evalPtr (loopData s p) of None \<Rightarrow> cond s | Some e \<Rightarrow> cond s + 1)"
  by (simp_all add: LeaveLoop_def LeaveLoop_drop_def Ns_CondBroadcast_def Let_def split: option.splits)

lemma EnterLoop_fields:
  assumes "EnterLoop s p thread now objv = Some s'"
  obtains key where "key \<notin> set (map fst (loops s))"
    and "loops s' = loops s @ [(key, Some p)]"
    and "loopData s' = (loopData s)(p :=
           \<lparr>control = LOOP_RUN, lid = key, tid = thread, spins = 0, etime = now,
            hPtr = key, args = objv, evalPtr = None\<rparr>)"
    and "evalData s' = evalData s" and "cond s' = cond s"
proof -
  from EnterLoop_Some [OF assms] obtain k
    where fresh: "hex_of (unat (next_id s + of_nat k)) \<notin> set (map fst (loops s))"
      and s': "s' = s\<lparr>loops := loops s @ [(hex_of (unat (next_id s + of_nat k)), Some p)],
             next_id := next_id s + of_nat k + 1,
             loopData := (loopData s)(p :=
               \<lparr>control = LOOP_RUN, lid = hex_of (unat (next_id s + of_nat k)), tid = thread,
                spins = 0, etime = now, hPtr = hex_of (unat (next_id s + of_nat k)),
                args = objv, evalPtr = None\<rparr>)\<rparr>"
    by blast
  show ?thesis
    by (rule that [OF fresh]) (simp_all add: s')
qed

section \<open>The table of loops holds the running loops\<close>

lemma keeps_refl [simp]: "keeps s s"
  by (simp add: keeps_def)

lemma keeps_CheckControl [simp]: "keeps s (snd (CheckControl s p ires))"
  by (simp add: CheckControl_state keeps_def)

lemma keeps_CheckControl_evaluated [simp]: "keeps s (snd (CheckControl_evaluated s p res str))"
  by (simp add: CheckControl_evaluated_state keeps_def split: option.splits)

lemma keeps_EvalObjCmd [simp]: "keeps s (snd (EvalObjCmd s e ident scr))"
  by (rule EvalObjCmd_cases [of s e ident scr]) (simp_all add: keeps_def)

lemma keeps_EvalObjCmd_wake [simp]: "keeps s (snd (EvalObjCmd_wake s e p status))"
  by (rule EvalObjCmd_wake_cases [of status s e p]) (simp_all add: keeps_def)

lemma keeps_Signal [simp]: "keeps s (snd (Signal s ident signal))"
  by (rule Signal_cases [of s ident signal]) (simp_all add: keeps_def)

lemma keeps_AbortObjCmd [simp]: "keeps s (snd (AbortObjCmd s ident))"
  by (simp add: keeps_def)

lemma keeps_InitInterp [simp]: "keeps s (InitInterp s tlsPtr threadPtr thread)"
  by (simp add: keeps_def)

lemma keeps_ThreadCleanup [simp]: "keeps s (ThreadCleanup s threadPtr)"
  by (simp add: keeps_def)

lemma registry_ok_keeps:
  assumes "registry_ok c" and "keeps (shared c) (shared c')"
    and "\<And>q. loop_pc c' q = LOutside \<longleftrightarrow> loop_pc c q = LOutside"
  shows "registry_ok c'"
  using assms by (simp add: registry_ok_def keeps_def)

lemma registry_ok_Enter:
  assumes ok: "registry_ok c" and out: "loop_pc c p = LOutside"
    and enter: "EnterLoop (shared c) p thread now objv = Some s'"
  shows "registry_ok (c\<lparr>shared := s', loop_pc := (loop_pc c)(p := LTest)\<rparr>)"
proof -
  from enter obtain key
    where fresh: "key \<notin> set (map fst (loops (shared c)))"
      and tbl: "loops s' = loops (shared c) @ [(key, Some p)]"
      and mem: "loopData s' = (loopData (shared c))(p :=
               \<lparr>control = LOOP_RUN, lid = key, tid = thread,
                spins = 0, etime = now, hPtr = key, args = objv, evalPtr = None\<rparr>)"
    by (rule EnterLoop_fields)
  from ok have dist: "distinct (map fst (loops (shared c)))"
    and tab: "set (loops (shared c)) =
      {(lid (loopData (shared c) q), Some q) |q. loop_pc c q \<noteq> LOutside}"
    and ent: "\<And>q. loop_pc c q = LOutside \<or> hPtr (loopData (shared c) q) = lid (loopData (shared c) q)"
    by (simp_all add: registry_ok_def)
  have "distinct (map fst (loops s'))"
    using dist fresh by (simp add: tbl)
  moreover have "set (loops s') =
      {(lid (loopData s' q), Some q) |q. ((loop_pc c)(p := LTest)) q \<noteq> LOutside}"
    using out by (auto simp: tbl mem tab)
  moreover have "((loop_pc c)(p := LTest)) q = LOutside \<or>
      hPtr (loopData s' q) = lid (loopData s' q)" for q
    using ent [of q] by (simp add: mem)
  ultimately show ?thesis
    by (simp add: registry_ok_def)
qed

lemma registry_ok_Leave:
  assumes ok: "registry_ok c" and active: "loop_pc c p \<noteq> LOutside"
  shows "registry_ok (c\<lparr>shared := LeaveLoop (shared c) p, loop_pc := (loop_pc c)(p := LOutside)\<rparr>)"
proof -
  let ?s = "shared c"
  from ok have dist: "distinct (map fst (loops ?s))"
    and tab: "set (loops ?s) = {(lid (loopData ?s q), Some q) |q. loop_pc c q \<noteq> LOutside}"
    and ent: "\<And>q. loop_pc c q = LOutside \<or> hPtr (loopData ?s q) = lid (loopData ?s q)"
    by (simp_all add: registry_ok_def)
  from ent [of p] active have key: "hPtr (loopData ?s p) = lid (loopData ?s p)"
    by simp
  have same: "q = p" if "loop_pc c q \<noteq> LOutside" "lid (loopData ?s q) = lid (loopData ?s p)" for q
  proof -
    from that(1) active have "(lid (loopData ?s q), Some q) \<in> set (loops ?s)"
      and "(lid (loopData ?s p), Some p) \<in> set (loops ?s)"
      unfolding tab by blast+
    with that(2) have "(lid (loopData ?s p), Some q) \<in> set (loops ?s)"
      and "(lid (loopData ?s p), Some p) \<in> set (loops ?s)"
      by simp_all
    with dist have "Some q = Some p"
      by (intro eq_key_imp_eq_value)
    then show ?thesis by simp
  qed
  have "distinct (map fst (Tcl_DeleteHashEntry (loops ?s) (lid (loopData ?s p))))"
    using dist by (simp add: Tcl_DeleteHashEntry_def distinct_map_filter)
  moreover have "set (Tcl_DeleteHashEntry (loops ?s) (lid (loopData ?s p))) =
      {(lid (loopData ?s q), Some q) |q. ((loop_pc c)(p := LOutside)) q \<noteq> LOutside}"
    (is "?L = ?R")
  proof (intro set_eqI iffI)
    fix x assume "x \<in> ?L"
    then obtain q where "x = (lid (loopData ?s q), Some q)" "loop_pc c q \<noteq> LOutside"
      "lid (loopData ?s q) \<noteq> lid (loopData ?s p)"
      by (auto simp: Tcl_DeleteHashEntry_def tab)
    moreover from this have "q \<noteq> p"
      by blast
    ultimately show "x \<in> ?R"
      by simp
  next
    fix x assume "x \<in> ?R"
    then obtain q where "x = (lid (loopData ?s q), Some q)" "loop_pc c q \<noteq> LOutside" "q \<noteq> p"
      by (auto split: if_splits)
    moreover from this same have "lid (loopData ?s q) \<noteq> lid (loopData ?s p)"
      by blast
    ultimately show "x \<in> ?L"
      by (auto simp: Tcl_DeleteHashEntry_def tab)
  qed
  moreover have "((loop_pc c)(p := LOutside)) q = LOutside \<or>
      hPtr (loopData ?s q) = lid (loopData ?s q)" for q
    using ent [of q] by simp
  ultimately show ?thesis
    by (simp add: registry_ok_def key)
qed

lemma registry_ok_fire:
  assumes "registry_ok c" and "fire c ev = Some c'"
  shows "registry_ok c'"
proof (cases ev)
  case (Enter p thread now objv)
  with assms show ?thesis
    by (auto simp: registry_ok_Enter split: if_splits option.splits)
next
  case (Leave p)
  with assms show ?thesis
    by (auto simp: registry_ok_Leave split: loop_pc.splits)
next
  case (Iterate p ires)
  with assms show ?thesis
    by (auto simp: checked_def intro!: registry_ok_keeps [of c] split: if_splits)
next
  case (Stop p res)
  with assms show ?thesis
    by (auto intro!: registry_ok_keeps [of c] split: if_splits)
next
  case (Evaluated p res str)
  with assms show ?thesis
    by (auto simp: checked_def intro!: registry_ok_keeps [of c] split: if_splits)
next
  case (Woken p)
  with assms show ?thesis
    by (auto simp: checked_def intro!: registry_ok_keeps [of c] split: loop_pc.splits if_splits)
next
  case (BodyDone p res)
  with assms show ?thesis
    by (auto intro!: registry_ok_keeps [of c] split: if_splits)
next
  case (Eval e ident scr)
  with assms show ?thesis
    by (auto simp: evaled_def intro!: registry_ok_keeps [of c] split: eval_pc.splits)
next
  case (TimedWait e status)
  with assms show ?thesis
    by (auto simp: evaled_def intro!: registry_ok_keeps [of c] split: eval_pc.splits)
next
  case (Sig ident signal)
  with assms show ?thesis
    by (auto intro!: registry_ok_keeps [of c])
next
  case (Abort ident)
  with assms show ?thesis
    by (auto intro!: registry_ok_keeps [of c])
next
  case (Init tlsPtr threadPtr thread)
  with assms show ?thesis
    by (auto intro!: registry_ok_keeps [of c])
next
  case (Cleanup threadPtr)
  with assms show ?thesis
    by (auto intro!: registry_ok_keeps [of c])
qed

lemma registry_ok_run:
  "registry_ok c \<Longrightarrow> run c evs = Some c' \<Longrightarrow> registry_ok c'"
  by (induction evs arbitrary: c) (auto dest: registry_ok_fire split: option.splits)

lemma registry_ok_quiet: "quiet c \<Longrightarrow> registry_ok c"
  by (simp add: quiet_def registry_ok_def)

lemma registry_ok_inj:
  assumes "registry_ok c"
  shows "inj_on (\<lambda>p. lid (loopData (shared c) p)) {p. loop_pc c p \<noteq> LOutside}"
proof (rule inj_onI)
  fix p q
  assume "p \<in> {p. loop_pc c p \<noteq> LOutside}" "q \<in> {p. loop_pc c p \<noteq> LOutside}"
    and eq: "lid (loopData (shared c) p) = lid (loopData (shared c) q)"
  with assms have "(lid (loopData (shared c) p), Some p) \<in> set (loops (shared c))"
    and "(lid (loopData (shared c) p), Some q) \<in> set (loops (shared c))"
    by (auto simp: registry_ok_def)
  moreover from assms have "distinct (map fst (loops (shared c)))"
    by (simp add: registry_ok_def)
  ultimately have "Some p = Some q"
    by (intro eq_key_imp_eq_value)
  then show "p = q" by simp
qed

lemma registry_ok_keys:
  assumes "registry_ok c"
  shows "set (map fst (loops (shared c))) =
    (\<lambda>p. lid (loopData (shared c) p)) ` {p. loop_pc c p \<noteq> LOutside}"
proof -
  from assms have "set (loops (shared c)) =
      (\<lambda>p. (lid (loopData (shared c) p), Some p)) ` {p. loop_pc c p \<noteq> LOutside}"
    by (auto simp: registry_ok_def)
  then show ?thesis
    by (simp add: image_image)
qed

lemma filter_absent: "k \<notin> set xs \<Longrightarrow> filter (\<lambda>x. x \<noteq> k) xs = xs"
  by (induction xs) auto

lemma length_filter_distinct:
  "distinct xs \<Longrightarrow> k \<in> set xs \<Longrightarrow> Suc (length (filter (\<lambda>x. x \<noteq> k) xs)) = length xs"
  by (induction xs) (auto simp: filter_absent)

lemma map_fst_Tcl_DeleteHashEntry:
  "map fst (Tcl_DeleteHashEntry tbl k) = filter (\<lambda>x. x \<noteq> k) (map fst tbl)"
  by (induction tbl) (auto simp: Tcl_DeleteHashEntry_def)

text \<open>
  C3. After any sequence of events from a state without loops, among them the
  \<open>EnterLoop\<close> and \<open>LeaveLoop\<close> of any number of loops in any order, \<open>loopctl_loops\<close>
  returns each id once, and the ids it returns are exactly the ids of the loops that
  have entered and not left: as many as there are such loops. An \<open>EnterLoop\<close> adds one
  id, which was not listed; a \<open>LeaveLoop\<close> removes the id of its loop, which was listed,
  and nothing else.
\<close>

theorem LoopsObjCmd_lists_running_loops:
  assumes "quiet c0" and "run c0 evs = Some c"
  shows "fst (LoopsObjCmd (shared c)) = TCL_OK \<and>
    distinct (snd (LoopsObjCmd (shared c))) \<and>
    set (snd (LoopsObjCmd (shared c))) =
      {lid (loopData (shared c) p) |p. loop_pc c p \<noteq> LOutside} \<and>
    length (snd (LoopsObjCmd (shared c))) = card {p. loop_pc c p \<noteq> LOutside} \<and>
    (\<forall>p thread now objv c'. fire c (Enter p thread now objv) = Some c' \<longrightarrow>
       lid (loopData (shared c') p) \<notin> set (snd (LoopsObjCmd (shared c))) \<and>
       set (snd (LoopsObjCmd (shared c'))) =
         insert (lid (loopData (shared c') p)) (set (snd (LoopsObjCmd (shared c)))) \<and>
       length (snd (LoopsObjCmd (shared c'))) = length (snd (LoopsObjCmd (shared c))) + 1) \<and>
    (\<forall>p c'. fire c (Leave p) = Some c' \<longrightarrow>
       lid (loopData (shared c) p) \<in> set (snd (LoopsObjCmd (shared c))) \<and>
       set (snd (LoopsObjCmd (shared c'))) =
         set (snd (LoopsObjCmd (shared c))) - {lid (loopData (shared c) p)} \<and>
       length (snd (LoopsObjCmd (shared c'))) + 1 = length (snd (LoopsObjCmd (shared c))))"
proof -
  let ?ids = "snd (LoopsObjCmd (shared c))"
  from assms have ok: "registry_ok c"
    by (auto intro: registry_ok_run registry_ok_quiet)
  have ids: "?ids = map fst (loops (shared c))"
    by (simp add: LoopsObjCmd_def List_def)
  from ok have dist: "distinct ?ids"
    by (simp add: ids registry_ok_def)
  from registry_ok_keys [OF ok]
  have keys: "set ?ids = (\<lambda>p. lid (loopData (shared c) p)) ` {p. loop_pc c p \<noteq> LOutside}"
    by (simp only: ids)
  have "length ?ids = card (set ?ids)"
    using dist by (simp add: distinct_card)
  also have "\<dots> = card {p. loop_pc c p \<noteq> LOutside}"
    unfolding keys by (rule card_image [OF registry_ok_inj [OF ok]])
  finally have count: "length ?ids = card {p. loop_pc c p \<noteq> LOutside}" .
  have enter: "lid (loopData (shared c') p) \<notin> set ?ids \<and>
       set (snd (LoopsObjCmd (shared c'))) = insert (lid (loopData (shared c') p)) (set ?ids) \<and>
       length (snd (LoopsObjCmd (shared c'))) = length ?ids + 1"
    if "fire c (Enter p thread now objv) = Some c'" for p thread now objv c'
  proof -
    from that have "EnterLoop (shared c) p thread now objv = Some (shared c')"
      by (auto split: if_splits option.splits)
    then obtain key
      where "key \<notin> set (map fst (loops (shared c)))"
        and "loops (shared c') = loops (shared c) @ [(key, Some p)]"
        and "loopData (shared c') = (loopData (shared c))(p :=
               \<lparr>control = LOOP_RUN, lid = key, tid = thread,
                spins = 0, etime = now, hPtr = key, args = objv, evalPtr = None\<rparr>)"
      by (rule EnterLoop_fields)
    then show ?thesis
      by (simp add: LoopsObjCmd_def List_def)
  qed
  have leave: "lid (loopData (shared c) p) \<in> set ?ids \<and>
       set (snd (LoopsObjCmd (shared c'))) = set ?ids - {lid (loopData (shared c) p)} \<and>
       length (snd (LoopsObjCmd (shared c'))) + 1 = length ?ids"
    if "fire c (Leave p) = Some c'" for p c'
  proof -
    from that have active: "loop_pc c p \<noteq> LOutside"
      and c': "shared c' = LeaveLoop (shared c) p"
      by (auto split: loop_pc.splits)
    from active ok have key: "hPtr (loopData (shared c) p) = lid (loopData (shared c) p)"
      by (auto simp: registry_ok_def)
    from active have listed: "lid (loopData (shared c) p) \<in> set ?ids"
      unfolding keys by blast
    have "snd (LoopsObjCmd (shared c')) = filter (\<lambda>k. k \<noteq> lid (loopData (shared c) p)) ?ids"
      by (simp add: LoopsObjCmd_def List_def c' key map_fst_Tcl_DeleteHashEntry)
    with listed dist show ?thesis
      by (auto simp: length_filter_distinct)
  qed
  have code: "fst (LoopsObjCmd (shared c)) = TCL_OK"
    by (simp add: LoopsObjCmd_def List_def)
  from keys have running: "set ?ids = {lid (loopData (shared c) p) |p. loop_pc c p \<noteq> LOutside}"
    by auto
  show ?thesis
  proof (intro conjI allI impI)
    show "fst (LoopsObjCmd (shared c)) = TCL_OK" by (fact code)
    show "distinct ?ids" by (fact dist)
    show "set ?ids = {lid (loopData (shared c) p) |p. loop_pc c p \<noteq> LOutside}" by (fact running)
    show "length ?ids = card {p. loop_pc c p \<noteq> LOutside}" by (fact count)
  qed (use enter leave in blast)+
qed

theorem LoopsObjCmd_lists_running_loops_witness:
  "quiet start \<and>
   run start [Enter 1 204 (5, 0) [''while'', ''1'', ''body''],
     Enter 2 204 (6, 0) [''for'', ''a'', ''b'', ''c'', ''d''], Stop 1 TCL_OK] =
     Some (scene [Enter 1 204 (5, 0) [''while'', ''1'', ''body''],
       Enter 2 204 (6, 0) [''for'', ''a'', ''b'', ''c'', ''d''], Stop 1 TCL_OK]) \<and>
   LoopsObjCmd (shared (scene [Enter 1 204 (5, 0) [''while'', ''1'', ''body''],
     Enter 2 204 (6, 0) [''for'', ''a'', ''b'', ''c'', ''d''], Stop 1 TCL_OK])) =
     (TCL_OK, [''0'', ''1'']) \<and>
   card {p. loop_pc (scene [Enter 1 204 (5, 0) [''while'', ''1'', ''body''],
     Enter 2 204 (6, 0) [''for'', ''a'', ''b'', ''c'', ''d''], Stop 1 TCL_OK]) p \<noteq> LOutside} = 2 \<and>
   LoopsObjCmd (shared (scene [Enter 1 204 (5, 0) [''while'', ''1'', ''body''],
     Enter 2 204 (6, 0) [''for'', ''a'', ''b'', ''c'', ''d''], Stop 1 TCL_OK, Leave 1])) =
     (TCL_OK, [''1'']) \<and>
   LoopsObjCmd (shared (scene [Enter 1 204 (5, 0) [''while'', ''1'', ''body''],
     Enter 2 204 (6, 0) [''for'', ''a'', ''b'', ''c'', ''d''], Stop 1 TCL_OK, Leave 1,
     Enter 3 204 (7, 0) [''while'', ''1'', ''body'']])) =
     (TCL_OK, [''1'', ''2''])"
  using LoopsObjCmd_lists_running_loops [of start
      "[Enter 1 204 (5, 0) [''while'', ''1'', ''body''],
        Enter 2 204 (6, 0) [''for'', ''a'', ''b'', ''c'', ''d''], Stop 1 TCL_OK]"
      "scene [Enter 1 204 (5, 0) [''while'', ''1'', ''body''],
        Enter 2 204 (6, 0) [''for'', ''a'', ''b'', ''c'', ''d''], Stop 1 TCL_OK]"]
  by (simp add: model quiet_def)

section \<open>A request is attached to one running loop at most\<close>

lemma requests_okD:
  "requests_ok c \<Longrightarrow> loop_pc c q \<noteq> LOutside \<Longrightarrow> evalPtr (loopData (shared c) q) = Some e \<Longrightarrow>
   eval_pc c e = EWaiting q \<and> state (evalData (shared c) e) = EVAL_WAIT"
  unfolding requests_ok_def by blast

lemma requests_okI:
  "(\<And>q e. loop_pc c q \<noteq> LOutside \<Longrightarrow> evalPtr (loopData (shared c) q) = Some e \<Longrightarrow>
     eval_pc c e = EWaiting q \<and> state (evalData (shared c) e) = EVAL_WAIT) \<Longrightarrow> requests_ok c"
  unfolding requests_ok_def by blast

lemma requests_ok_same:
  assumes "requests_ok c"
    and "\<And>q. loop_pc c' q \<noteq> LOutside \<Longrightarrow> loop_pc c q \<noteq> LOutside"
    and "\<And>q. evalPtr (loopData (shared c') q) = evalPtr (loopData (shared c) q)"
    and "evalData (shared c') = evalData (shared c)"
    and "eval_pc c' = eval_pc c"
  shows "requests_ok c'"
proof (rule requests_okI)
  fix q e
  assume "loop_pc c' q \<noteq> LOutside" "evalPtr (loopData (shared c') q) = Some e"
  with assms(2,3) have "loop_pc c q \<noteq> LOutside" "evalPtr (loopData (shared c) q) = Some e"
    by simp_all
  from requests_okD [OF assms(1) this]
  show "eval_pc c' e = EWaiting q \<and> state (evalData (shared c') e) = EVAL_WAIT"
    by (simp add: assms(4,5))
qed

lemma requests_ok_Enter:
  assumes ok: "requests_ok c" and enter: "EnterLoop (shared c) p thread now objv = Some s'"
  shows "requests_ok (c\<lparr>shared := s', loop_pc := (loop_pc c)(p := LTest)\<rparr>)"
proof (rule requests_okI)
  fix q e
  assume q: "loop_pc (c\<lparr>shared := s', loop_pc := (loop_pc c)(p := LTest)\<rparr>) q \<noteq> LOutside"
    and e: "evalPtr (loopData (shared (c\<lparr>shared := s', loop_pc := (loop_pc c)(p := LTest)\<rparr>)) q) = Some e"
  from enter obtain key where mem: "loopData s' = (loopData (shared c))(p :=
           \<lparr>control = LOOP_RUN, lid = key, tid = thread, spins = 0, etime = now,
            hPtr = key, args = objv, evalPtr = None\<rparr>)"
    and ev: "evalData s' = evalData (shared c)"
    by (rule EnterLoop_fields)
  from e have "q \<noteq> p"
    by (auto simp: mem)
  with q e have "loop_pc c q \<noteq> LOutside" "evalPtr (loopData (shared c) q) = Some e"
    by (simp_all add: mem)
  from requests_okD [OF ok this]
  show "eval_pc (c\<lparr>shared := s', loop_pc := (loop_pc c)(p := LTest)\<rparr>) e = EWaiting q \<and>
    state (evalData (shared (c\<lparr>shared := s', loop_pc := (loop_pc c)(p := LTest)\<rparr>)) e) = EVAL_WAIT"
    by (simp add: ev)
qed

lemma requests_ok_Evaluated:
  assumes ok: "requests_ok c" and pc: "loop_pc c p = LEvaluating"
  shows "requests_ok (checked c p (CheckControl_evaluated (shared c) p res str))"
proof (cases "evalPtr (loopData (shared c) p)")
  case None
  show ?thesis
  proof (rule requests_ok_same [OF ok])
    fix q
    show "loop_pc c q \<noteq> LOutside"
      if "loop_pc (checked c p (CheckControl_evaluated (shared c) p res str)) q \<noteq> LOutside"
      using that pc by (cases "q = p") (simp_all add: checked_def)
    show "evalPtr (loopData (shared (checked c p (CheckControl_evaluated (shared c) p res str))) q) =
      evalPtr (loopData (shared c) q)"
      by (simp add: checked_def CheckControl_evaluated_state None)
  next
    show "evalData (shared (checked c p (CheckControl_evaluated (shared c) p res str))) =
      evalData (shared c)"
      by (simp add: checked_def CheckControl_evaluated_state None)
    show "eval_pc (checked c p (CheckControl_evaluated (shared c) p res str)) = eval_pc c"
      by (simp add: checked_def)
  qed
next
  case (Some e0)
  from requests_okD [OF ok _ Some] pc have e0: "eval_pc c e0 = EWaiting p"
    by simp
  show ?thesis
  proof (rule requests_okI)
    fix q e
    let ?c' = "checked c p (CheckControl_evaluated (shared c) p res str)"
    assume q: "loop_pc ?c' q \<noteq> LOutside" and e: "evalPtr (loopData (shared ?c') q) = Some e"
    from e Some have "q \<noteq> p"
      by (auto simp: checked_def CheckControl_evaluated_state)
    with q e Some have "loop_pc c q \<noteq> LOutside" "evalPtr (loopData (shared c) q) = Some e"
      by (simp_all add: checked_def CheckControl_evaluated_state)
    from requests_okD [OF ok this]
    have *: "eval_pc c e = EWaiting q" "state (evalData (shared c) e) = EVAL_WAIT"
      by simp_all
    with e0 \<open>q \<noteq> p\<close> have "e \<noteq> e0"
      by auto
    with * Some show "eval_pc ?c' e = EWaiting q \<and> state (evalData (shared ?c') e) = EVAL_WAIT"
      by (simp add: checked_def CheckControl_evaluated_state)
  qed
qed

lemma requests_ok_Leave:
  assumes ok: "requests_ok c" and pc: "loop_pc c p \<noteq> LOutside"
  shows "requests_ok (c\<lparr>shared := LeaveLoop (shared c) p, loop_pc := (loop_pc c)(p := LOutside)\<rparr>)"
proof (rule requests_okI)
  fix q e
  let ?c' = "c\<lparr>shared := LeaveLoop (shared c) p, loop_pc := (loop_pc c)(p := LOutside)\<rparr>"
  assume q: "loop_pc ?c' q \<noteq> LOutside" and e: "evalPtr (loopData (shared ?c') q) = Some e"
  from q have "q \<noteq> p"
    by auto
  with q e have "loop_pc c q \<noteq> LOutside" "evalPtr (loopData (shared c) q) = Some e"
    by simp_all
  from requests_okD [OF ok this]
  have *: "eval_pc c e = EWaiting q" "state (evalData (shared c) e) = EVAL_WAIT"
    by simp_all
  have "evalPtr (loopData (shared c) p) \<noteq> Some e"
  proof
    assume "evalPtr (loopData (shared c) p) = Some e"
    from requests_okD [OF ok pc this] * \<open>q \<noteq> p\<close> show False
      by simp
  qed
  with * show "eval_pc ?c' e = EWaiting q \<and> state (evalData (shared ?c') e) = EVAL_WAIT"
    by (simp split: option.splits)
qed

lemma requests_ok_Eval:
  assumes ok: "requests_ok c" and pc: "\<And>p. eval_pc c e0 \<noteq> EWaiting p"
  shows "requests_ok (evaled c e0 (EvalObjCmd (shared c) e0 ident scr))"
proof (rule EvalObjCmd_cases [of "shared c" e0 ident scr])
  fix res msg
  assume r: "EvalObjCmd (shared c) e0 ident scr = (CmdReturn res msg, shared c)"
  show ?thesis
  proof (rule requests_okI)
    fix q e
    let ?c' = "evaled c e0 (EvalObjCmd (shared c) e0 ident scr)"
    assume "loop_pc ?c' q \<noteq> LOutside" "evalPtr (loopData (shared ?c') q) = Some e"
    then have "loop_pc c q \<noteq> LOutside" "evalPtr (loopData (shared c) q) = Some e"
      by (simp_all add: evaled_def r)
    from requests_okD [OF ok this]
    have *: "eval_pc c e = EWaiting q" "state (evalData (shared c) e) = EVAL_WAIT"
      by simp_all
    with pc have "e \<noteq> e0"
      by auto
    with * show "eval_pc ?c' e = EWaiting q \<and> state (evalData (shared ?c') e) = EVAL_WAIT"
      by (simp add: evaled_def r)
  qed
next
  fix p0
  assume r: "EvalObjCmd (shared c) e0 ident scr =
     (CmdWait p0,
      shared c\<lparr>evalData := (evalData (shared c))(e0 :=
           \<lparr>state = EVAL_WAIT, code = TCL_OK, script = scr, result = []\<rparr>),
         loopData := (loopData (shared c))(p0 := (loopData (shared c) p0)\<lparr>evalPtr := Some e0\<rparr>),
         cond := cond (shared c) + 1\<rparr>)"
  show ?thesis
  proof (rule requests_okI)
    fix q e
    let ?c' = "evaled c e0 (EvalObjCmd (shared c) e0 ident scr)"
    assume q: "loop_pc ?c' q \<noteq> LOutside" and e: "evalPtr (loopData (shared ?c') q) = Some e"
    show "eval_pc ?c' e = EWaiting q \<and> state (evalData (shared ?c') e) = EVAL_WAIT"
    proof (cases "q = p0")
      case True
      with e have "e = e0"
        by (simp add: evaled_def r)
      with True show ?thesis
        by (simp add: evaled_def r after_eval_def)
    next
      case False
      with q e have "loop_pc c q \<noteq> LOutside" "evalPtr (loopData (shared c) q) = Some e"
        by (simp_all add: evaled_def r)
      from requests_okD [OF ok this]
      have *: "eval_pc c e = EWaiting q" "state (evalData (shared c) e) = EVAL_WAIT"
        by simp_all
      with pc have "e \<noteq> e0"
        by auto
      with * show ?thesis
        by (simp add: evaled_def r)
    qed
  qed
qed

lemma requests_ok_TimedWait:
  assumes ok: "requests_ok c" and pc: "eval_pc c e0 = EWaiting p0"
  shows "requests_ok (evaled c e0 (EvalObjCmd_wake (shared c) e0 p0 status))"
proof (rule requests_okI)
  fix q e
  let ?c' = "evaled c e0 (EvalObjCmd_wake (shared c) e0 p0 status)"
  assume q: "loop_pc ?c' q \<noteq> LOutside" and e: "evalPtr (loopData (shared ?c') q) = Some e"
  show "eval_pc ?c' e = EWaiting q \<and> state (evalData (shared ?c') e) = EVAL_WAIT"
  proof (rule EvalObjCmd_wake_cases [of status "shared c" e0 p0])
    assume r: "EvalObjCmd_wake (shared c) e0 p0 status = (CmdWait p0, shared c)"
    with q e have "loop_pc c q \<noteq> LOutside" "evalPtr (loopData (shared c) q) = Some e"
      by (simp_all add: evaled_def)
    from requests_okD [OF ok this] pc show ?thesis
      by (auto simp: evaled_def r after_eval_def)
  next
    assume r: "EvalObjCmd_wake (shared c) e0 p0 status =
         (CmdReturn TCL_ERROR ''timeout: result dropped'',
          shared c\<lparr>loopData := (loopData (shared c))(p0 := (loopData (shared c) p0)\<lparr>evalPtr := None\<rparr>)\<rparr>)"
    from e have "q \<noteq> p0"
      by (auto simp: evaled_def r)
    with q e have "loop_pc c q \<noteq> LOutside" "evalPtr (loopData (shared c) q) = Some e"
      by (simp_all add: evaled_def r)
    from requests_okD [OF ok this]
    have *: "eval_pc c e = EWaiting q" "state (evalData (shared c) e) = EVAL_WAIT"
      by simp_all
    with pc \<open>q \<noteq> p0\<close> have "e \<noteq> e0"
      by auto
    with * show ?thesis
      by (simp add: evaled_def r)
  next
    assume st: "state (evalData (shared c) e0) = EVAL_DROP"
      and r: "EvalObjCmd_wake (shared c) e0 p0 status =
        (CmdReturn TCL_ERROR ''dropped: loop exited'', shared c)"
    from q e have "loop_pc c q \<noteq> LOutside" "evalPtr (loopData (shared c) q) = Some e"
      by (simp_all add: evaled_def r)
    from requests_okD [OF ok this]
    have *: "eval_pc c e = EWaiting q" "state (evalData (shared c) e) = EVAL_WAIT"
      by simp_all
    with st have "e \<noteq> e0"
      by auto
    with * show ?thesis
      by (simp add: evaled_def r)
  next
    assume st: "state (evalData (shared c) e0) = EVAL_DONE"
      and r: "EvalObjCmd_wake (shared c) e0 p0 status =
        (CmdReturn (code (evalData (shared c) e0)) (result (evalData (shared c) e0)), shared c)"
    from q e have "loop_pc c q \<noteq> LOutside" "evalPtr (loopData (shared c) q) = Some e"
      by (simp_all add: evaled_def r)
    from requests_okD [OF ok this]
    have *: "eval_pc c e = EWaiting q" "state (evalData (shared c) e) = EVAL_WAIT"
      by simp_all
    with st have "e \<noteq> e0"
      by auto
    with * show ?thesis
      by (simp add: evaled_def r)
  qed
qed

lemma Signal_frame [simp]:
  "evalPtr (loopData (snd (Signal s ident signal)) q) = evalPtr (loopData s q)"
  "spins (loopData (snd (Signal s ident signal)) q) = spins (loopData s q)"
  "evalData (snd (Signal s ident signal)) = evalData s"
  by (rule Signal_cases [of s ident signal]; simp)+

lemma requests_ok_fire:
  assumes "requests_ok c" and "fire c ev = Some c'"
  shows "requests_ok c'"
proof (cases ev)
  case (Enter p thread now objv)
  with assms show ?thesis
    by (auto simp: requests_ok_Enter split: if_splits option.splits)
next
  case (Leave p)
  with assms show ?thesis
    by (auto simp: requests_ok_Leave split: loop_pc.splits)
next
  case (Iterate p ires)
  with assms show ?thesis
    by (auto simp: checked_def CheckControl_state intro!: requests_ok_same [of c] split: if_splits)
next
  case (Stop p res)
  with assms show ?thesis
    by (auto intro!: requests_ok_same [of c] split: if_splits)
next
  case (Evaluated p res str)
  with assms show ?thesis
    by (auto simp: requests_ok_Evaluated split: if_splits)
next
  case (Woken p)
  with assms show ?thesis
    by (auto simp: checked_def intro!: requests_ok_same [of c] split: loop_pc.splits if_splits)
next
  case (BodyDone p res)
  with assms show ?thesis
    by (auto intro!: requests_ok_same [of c] split: if_splits)
next
  case (Eval e ident scr)
  with assms show ?thesis
    by (auto simp: requests_ok_Eval split: eval_pc.splits)
next
  case (TimedWait e status)
  with assms show ?thesis
    by (auto simp: requests_ok_TimedWait split: eval_pc.splits)
next
  case (Sig ident signal)
  with assms show ?thesis
    by (auto intro!: requests_ok_same [of c])
next
  case (Abort ident)
  with assms show ?thesis
    by (auto intro!: requests_ok_same [of c])
next
  case (Init tlsPtr threadPtr thread)
  with assms show ?thesis
    by (auto intro!: requests_ok_same [of c])
next
  case (Cleanup threadPtr)
  with assms show ?thesis
    by (auto intro!: requests_ok_same [of c])
qed

lemma requests_ok_run:
  "requests_ok c \<Longrightarrow> run c evs = Some c' \<Longrightarrow> requests_ok c'"
  by (induction evs arbitrary: c) (auto dest: requests_ok_fire split: option.splits)

lemma requests_ok_quiet: "quiet c \<Longrightarrow> requests_ok c"
  by (simp add: quiet_def requests_ok_def)

section \<open>A loop leaves while a command waits for it\<close>

lemma dropped_stays_fire:
  assumes ok: "requests_ok c" and w: "eval_pc c e = EWaiting p"
    and d: "state (evalData (shared c) e) = EVAL_DROP"
    and f: "fire c ev = Some c'" and ne: "\<And>st. ev \<noteq> TimedWait e st"
  shows "eval_pc c' e = EWaiting p \<and> state (evalData (shared c') e) = EVAL_DROP"
proof (cases ev)
  case (Enter q thread now objv)
  with f obtain s' where "EnterLoop (shared c) q thread now objv = Some s'"
    and c': "c' = c\<lparr>shared := s', loop_pc := (loop_pc c)(q := LTest)\<rparr>"
    by (auto split: if_splits option.splits)
  from this(1) have "evalData s' = evalData (shared c)"
    by (rule EnterLoop_fields)
  with w d show ?thesis
    by (simp add: c')
next
  case (Iterate q ires)
  with f w d show ?thesis
    by (auto simp: checked_def CheckControl_state split: if_splits)
next
  case (Stop q res)
  with f w d show ?thesis
    by (auto split: if_splits)
next
  case (Evaluated q res str)
  with f have pc: "loop_pc c q = LEvaluating"
    and c': "c' = checked c q (CheckControl_evaluated (shared c) q res str)"
    by (auto split: if_splits)
  show ?thesis
  proof (cases "evalPtr (loopData (shared c) q)")
    case None
    with w d show ?thesis
      by (simp add: c' checked_def CheckControl_evaluated_state)
  next
    case (Some e0)
    from requests_okD [OF ok _ Some] pc have "state (evalData (shared c) e0) = EVAL_WAIT"
      by simp
    with d have "e0 \<noteq> e"
      by auto
    with w d Some show ?thesis
      by (simp add: c' checked_def CheckControl_evaluated_state)
  qed
next
  case (Woken q)
  with f w d show ?thesis
    by (auto simp: checked_def split: loop_pc.splits)
next
  case (BodyDone q res)
  with f w d show ?thesis
    by (auto split: if_splits)
next
  case (Leave q)
  with f w d show ?thesis
    by (auto split: loop_pc.splits option.splits)
next
  case (Eval e0 ident scr)
  with f w have "e0 \<noteq> e"
    by (auto split: eval_pc.splits)
  moreover from Eval f have "c' = evaled c e0 (EvalObjCmd (shared c) e0 ident scr)"
    by (auto split: eval_pc.splits)
  ultimately show ?thesis
    using w d by (rule_tac EvalObjCmd_cases [of "shared c" e0 ident scr]) (simp_all add: evaled_def)
next
  case (TimedWait e0 status)
  with ne have "e0 \<noteq> e"
    by auto
  moreover from TimedWait f obtain p0 where
    "c' = evaled c e0 (EvalObjCmd_wake (shared c) e0 p0 status)"
    by (auto split: eval_pc.splits)
  ultimately show ?thesis
    using w d by (rule_tac EvalObjCmd_wake_cases [of status "shared c" e0 p0]) (simp_all add: evaled_def)
next
  case (Sig ident signal)
  with f w d show ?thesis
    by auto
next
  case (Abort ident)
  with f w d show ?thesis
    by auto
next
  case (Init tlsPtr threadPtr thread)
  with f w d show ?thesis
    by auto
next
  case (Cleanup threadPtr)
  with f w d show ?thesis
    by auto
qed

lemma dropped_stays_run:
  "requests_ok c \<Longrightarrow> eval_pc c e = EWaiting p \<Longrightarrow> state (evalData (shared c) e) = EVAL_DROP \<Longrightarrow>
   run c evs = Some c' \<Longrightarrow> (\<forall>st. TimedWait e st \<notin> set evs) \<Longrightarrow>
   eval_pc c' e = EWaiting p \<and> state (evalData (shared c') e) = EVAL_DROP"
proof (induction evs arbitrary: c)
  case Nil
  then show ?case by simp
next
  case (Cons ev evs)
  from Cons.prems(4) obtain c1 where f: "fire c ev = Some c1" and r: "run c1 evs = Some c'"
    by (auto split: option.splits)
  from Cons.prems(5) have ne: "ev \<noteq> TimedWait e st" for st
    by auto
  from dropped_stays_fire [OF Cons.prems(1-3) f ne]
  have "eval_pc c1 e = EWaiting p" "state (evalData (shared c1) e) = EVAL_DROP"
    by simp_all
  moreover from Cons.prems(1) f have "requests_ok c1"
    by (rule requests_ok_fire)
  moreover from Cons.prems(5) have "\<forall>st. TimedWait e st \<notin> set evs"
    by simp
  ultimately show ?case
    using r by (intro Cons.IH)
qed

text \<open>
  C1. In every state that the loops and commands can reach, let a loop that is about to
  call \<open>LeaveLoop\<close> have a request attached. Then the request is in the state
  \<open>EVAL_WAIT\<close> and the command that sent it is blocked in its timed wait. \<open>LeaveLoop\<close>
  first sets the request to \<open>EVAL_DROP\<close> and broadcasts, the entry of the loop still in
  the table, then deletes the entry. Whatever happens afterwards, when the command wakes
  up, with whatever status of the timed wait, it returns \<open>TCL_ERROR\<close> with
  \<open>dropped: loop exited\<close>, not the timeout message.
\<close>

theorem LeaveLoop_drops_pending_request:
  assumes "quiet c0" and "run c0 evs0 = Some c"
    and "loop_pc c p = LExit rc" and "evalPtr (loopData (shared c) p) = Some e"
  shows "eval_pc c e = EWaiting p \<and> state (evalData (shared c) e) = EVAL_WAIT \<and>
    state (evalData (LeaveLoop_drop (shared c) p) e) = EVAL_DROP \<and>
    cond (LeaveLoop_drop (shared c) p) = cond (shared c) + 1 \<and>
    GetLoop (LeaveLoop_drop (shared c) p) (lid (loopData (shared c) p)) = (Some p, '''') \<and>
    (\<exists>c1. fire c (Leave p) = Some c1 \<and>
       fst (GetLoop (shared c1) (lid (loopData (shared c) p))) = None \<and>
       state (evalData (shared c1) e) = EVAL_DROP \<and>
       (\<forall>evs c2 status. run c1 evs = Some c2 \<and> (\<forall>st. TimedWait e st \<notin> set evs) \<longrightarrow>
          (\<exists>c3. fire c2 (TimedWait e status) = Some c3 \<and>
             eval_pc c3 e = EReturned TCL_ERROR ''dropped: loop exited'')))"
proof -
  let ?s = "shared c"
  let ?c1 = "c\<lparr>shared := LeaveLoop ?s p, loop_pc := (loop_pc c)(p := LOutside)\<rparr>"
  from assms(1,2) have req: "requests_ok c" and reg: "registry_ok c"
    by (auto intro: requests_ok_run requests_ok_quiet registry_ok_run registry_ok_quiet)
  from assms(3) have active: "loop_pc c p \<noteq> LOutside"
    by simp
  from requests_okD [OF req active assms(4)]
  have waiting: "eval_pc c e = EWaiting p" "state (evalData ?s e) = EVAL_WAIT"
    by simp_all
  from assms(4) have drop: "state (evalData (LeaveLoop_drop ?s p) e) = EVAL_DROP"
    "cond (LeaveLoop_drop ?s p) = cond ?s + 1" "loops (LeaveLoop_drop ?s p) = loops ?s"
    by (simp_all add: LeaveLoop_drop_def Ns_CondBroadcast_def)
  from reg active have dist: "distinct (map fst (loops ?s))"
    and entry: "(lid (loopData ?s p), Some p) \<in> set (loops ?s)"
    and key: "hPtr (loopData ?s p) = lid (loopData ?s p)"
    by (auto simp: registry_ok_def)
  from dist entry have "map_of (loops ?s) (lid (loopData ?s p)) = Some (Some p)"
    by (rule map_of_is_SomeI)
  with entry have found: "GetLoop (LeaveLoop_drop ?s p) (lid (loopData ?s p)) = (Some p, '''')"
    by (auto simp: GetLoop_def Tcl_FindHashEntry_def Tcl_GetHashValue_def drop(3) rev_image_eqI)
  from assms(3) have f: "fire c (Leave p) = Some ?c1"
    by simp
  have gone: "fst (GetLoop (shared ?c1) (lid (loopData ?s p))) = None"
    by (simp add: GetLoop_def Tcl_FindHashEntry_def key map_fst_Tcl_DeleteHashEntry
        flip: set_map)
  from assms(4) have d1: "state (evalData (shared ?c1) e) = EVAL_DROP"
    by simp
  from waiting(1) have w1: "eval_pc ?c1 e = EWaiting p"
    by simp
  from req f have req1: "requests_ok ?c1"
    by (rule requests_ok_fire)
  have later: "\<exists>c3. fire c2 (TimedWait e status) = Some c3 \<and>
      eval_pc c3 e = EReturned TCL_ERROR ''dropped: loop exited''"
    if "run ?c1 evs = Some c2" "\<forall>st. TimedWait e st \<notin> set evs" for evs c2 status
  proof -
    from dropped_stays_run [OF req1 w1 d1 that]
    have "eval_pc c2 e = EWaiting p" "state (evalData (shared c2) e) = EVAL_DROP"
      by simp_all
    then show ?thesis
      by (simp add: evaled_def EvalObjCmd_wake_def EvalObjCmd_switch_def after_eval_def)
  qed
  from later have "\<forall>evs c2 status. run ?c1 evs = Some c2 \<and> (\<forall>st. TimedWait e st \<notin> set evs) \<longrightarrow>
      (\<exists>c3. fire c2 (TimedWait e status) = Some c3 \<and>
         eval_pc c3 e = EReturned TCL_ERROR ''dropped: loop exited'')"
    by blast
  with f gone d1 have "\<exists>c1. fire c (Leave p) = Some c1 \<and>
       fst (GetLoop (shared c1) (lid (loopData ?s p))) = None \<and>
       state (evalData (shared c1) e) = EVAL_DROP \<and>
       (\<forall>evs c2 status. run c1 evs = Some c2 \<and> (\<forall>st. TimedWait e st \<notin> set evs) \<longrightarrow>
          (\<exists>c3. fire c2 (TimedWait e status) = Some c3 \<and>
             eval_pc c3 e = EReturned TCL_ERROR ''dropped: loop exited''))"
    by (intro exI [of _ ?c1] conjI)
  with waiting drop(1,2) found show ?thesis
    by (intro conjI)
qed

theorem LeaveLoop_drops_pending_request_witness:
  "quiet start \<and>
   run start [Enter 1 204 (5, 0) [''while'', ''1'', ''body''], Eval 10 ''0'' ''set x 1'',
     Stop 1 TCL_OK] =
     Some (scene [Enter 1 204 (5, 0) [''while'', ''1'', ''body''], Eval 10 ''0'' ''set x 1'',
       Stop 1 TCL_OK]) \<and>
   loop_pc (scene [Enter 1 204 (5, 0) [''while'', ''1'', ''body''], Eval 10 ''0'' ''set x 1'',
     Stop 1 TCL_OK]) 1 = LExit TCL_OK \<and>
   evalPtr (loopData (shared (scene [Enter 1 204 (5, 0) [''while'', ''1'', ''body''],
     Eval 10 ''0'' ''set x 1'', Stop 1 TCL_OK])) 1) = Some 10 \<and>
   eval_pc (scene [Enter 1 204 (5, 0) [''while'', ''1'', ''body''], Eval 10 ''0'' ''set x 1'',
     Stop 1 TCL_OK]) 10 = EWaiting 1 \<and>
   LoopsObjCmd (shared (scene [Enter 1 204 (5, 0) [''while'', ''1'', ''body''],
     Eval 10 ''0'' ''set x 1'', Stop 1 TCL_OK, Leave 1])) = (TCL_OK, []) \<and>
   eval_pc (scene [Enter 1 204 (5, 0) [''while'', ''1'', ''body''], Eval 10 ''0'' ''set x 1'',
     Stop 1 TCL_OK, Leave 1, TimedWait 10 NS_TIMEOUT]) 10 =
     EReturned TCL_ERROR ''dropped: loop exited''"
  using LeaveLoop_drops_pending_request [of start
      "[Enter 1 204 (5, 0) [''while'', ''1'', ''body''], Eval 10 ''0'' ''set x 1'', Stop 1 TCL_OK]"
      "scene [Enter 1 204 (5, 0) [''while'', ''1'', ''body''], Eval 10 ''0'' ''set x 1'',
        Stop 1 TCL_OK]" 1 TCL_OK 10]
  by (simp add: model quiet_def)

section \<open>A paused loop\<close>

lemma CheckControl_evaluated_paused:
  "control (loopData s p) = LOOP_PAUSE \<Longrightarrow> fst (CheckControl_evaluated s p res str) = CondWait str"
  by (cases "evalPtr (loopData s p)")
    (simp_all add: CheckControl_evaluated_def Ns_CondBroadcast_def Let_def)

lemma CheckControl_evaluated_spins:
  "spins (loopData (snd (CheckControl_evaluated s p res str)) q) = spins (loopData s q)"
  by (simp add: CheckControl_evaluated_state split: option.splits)

lemma paused_fire:
  assumes f: "fire c ev = Some c'" and pa: "paused p c'"
  shows "if in_checkpoint c p
    then in_checkpoint c' p \<and> spins (loopData (shared c') p) = spins (loopData (shared c) p)
    else \<not> in_checkpoint c' p \<and> spins (loopData (shared c') p) = spins (loopData (shared c) p) \<or>
      in_checkpoint c' p \<and> spins (loopData (shared c') p) = spins (loopData (shared c) p) + 1"
proof (cases ev)
  case (Enter q thread now objv)
  with f obtain s' where enter: "EnterLoop (shared c) q thread now objv = Some s'"
    and c': "c' = c\<lparr>shared := s', loop_pc := (loop_pc c)(q := LTest)\<rparr>"
    and out: "loop_pc c q = LOutside"
    by (auto split: if_splits option.splits)
  from enter obtain key where mem: "loopData s' = (loopData (shared c))(q :=
           \<lparr>control = LOOP_RUN, lid = key, tid = thread, spins = 0, etime = now,
            hPtr = key, args = objv, evalPtr = None\<rparr>)"
    by (rule EnterLoop_fields)
  from pa have "q \<noteq> p"
    by (auto simp: paused_def c' mem)
  then show ?thesis
    by (simp add: c' mem in_checkpoint_def)
next
  case (Iterate q ires)
  with f have pc: "loop_pc c q = LTest"
    and c': "c' = checked c q (CheckControl (shared c) q ires)"
    by (auto split: if_splits)
  show ?thesis
  proof (cases "q = p")
    case True
    with pa have "control (loopData (shared c) p) = LOOP_PAUSE"
      by (simp add: paused_def c' checked_def CheckControl_state)
    with True pc show ?thesis
      by (simp add: c' checked_def CheckControl_def CheckControl_loop_def in_checkpoint_def
          after_check_def split: option.splits)
  next
    case False
    then show ?thesis
      by (simp add: c' checked_def CheckControl_state in_checkpoint_def)
  qed
next
  case (Stop q res)
  with f have pc: "loop_pc c q = LTest"
    and c': "c' = c\<lparr>loop_pc := (loop_pc c)(q := LExit res)\<rparr>"
    by (auto split: if_splits)
  then show ?thesis
    by (cases "q = p") (simp_all add: in_checkpoint_def)
next
  case (Evaluated q res str)
  with f have pc: "loop_pc c q = LEvaluating"
    and c': "c' = checked c q (CheckControl_evaluated (shared c) q res str)"
    by (auto split: if_splits)
  show ?thesis
  proof (cases "q = p")
    case True
    with pa have "control (loopData (shared c) p) = LOOP_PAUSE"
      by (simp add: paused_def c' checked_def CheckControl_evaluated_state split: option.splits)
    with True pc show ?thesis
      by (simp add: c' checked_def CheckControl_evaluated_paused CheckControl_evaluated_spins
          in_checkpoint_def after_check_def)
  next
    case False
    then show ?thesis
      by (simp add: c' checked_def CheckControl_evaluated_state in_checkpoint_def
          split: option.splits)
  qed
next
  case (Woken q)
  with f obtain ires where pc: "loop_pc c q = LWaiting ires"
    and c': "c' = checked c q (CheckControl_woken (shared c) q ires)"
    by (auto split: loop_pc.splits)
  show ?thesis
  proof (cases "q = p")
    case True
    with pa have "control (loopData (shared c) p) = LOOP_PAUSE"
      by (simp add: paused_def c' checked_def)
    with True pc show ?thesis
      by (simp add: c' checked_def CheckControl_woken_def CheckControl_loop_def
          in_checkpoint_def after_check_def split: option.splits)
  next
    case False
    then show ?thesis
      by (simp add: c' checked_def in_checkpoint_def)
  qed
next
  case (BodyDone q res)
  with f have pc: "loop_pc c q = LBody"
    and c': "c' = c\<lparr>loop_pc := (loop_pc c)(q :=
      if res = TCL_OK \<or> res = TCL_CONTINUE then LTest else LExit res)\<rparr>"
    by (auto split: if_splits)
  then show ?thesis
    by (cases "q = p") (simp_all add: in_checkpoint_def)
next
  case (Leave q)
  with f obtain res where pc: "loop_pc c q = LExit res"
    and c': "c' = c\<lparr>shared := LeaveLoop (shared c) q, loop_pc := (loop_pc c)(q := LOutside)\<rparr>"
    by (auto split: loop_pc.splits)
  then show ?thesis
    by (cases "q = p") (simp_all add: in_checkpoint_def)
next
  case (Eval e0 ident scr)
  with f have "c' = evaled c e0 (EvalObjCmd (shared c) e0 ident scr)"
    by (auto split: eval_pc.splits)
  then show ?thesis
    by (rule_tac EvalObjCmd_cases [of "shared c" e0 ident scr])
      (simp_all add: evaled_def in_checkpoint_def)
next
  case (TimedWait e0 status)
  with f obtain p0 where "c' = evaled c e0 (EvalObjCmd_wake (shared c) e0 p0 status)"
    by (auto split: eval_pc.splits)
  then show ?thesis
    by (rule_tac EvalObjCmd_wake_cases [of status "shared c" e0 p0])
      (simp_all add: evaled_def in_checkpoint_def)
next
  case (Sig ident signal)
  with f show ?thesis
    by (auto simp: in_checkpoint_def)
next
  case (Abort ident)
  with f show ?thesis
    by (auto simp: in_checkpoint_def)
next
  case (Init tlsPtr threadPtr thread)
  with f show ?thesis
    by (auto simp: in_checkpoint_def)
next
  case (Cleanup threadPtr)
  with f show ?thesis
    by (auto simp: in_checkpoint_def)
qed

lemma along_last: "along P c evs \<Longrightarrow> run c evs = Some c' \<Longrightarrow> P c'"
  by (induction evs arbitrary: c) (auto split: option.splits)

text \<open>
  C7, as the claim has it, fails. A loop is in its body, after one visit of the
  checkpoint, when \<open>loopctl_pause\<close> sets its flag. The body ends and the loop visits the
  checkpoint again: the flag is \<open>LOOP_PAUSE\<close> in every state on the way, no
  \<open>loopctl_run\<close> happens, and \<open>spins\<close> goes from 1 to 2.
\<close>

theorem paused_loop_spins_counterexample:
  "loop_pc (scene [Enter 1 204 (5, 0) [''while'', ''1'', ''body''], Iterate 1 [],
     Sig ''0'' LOOP_PAUSE]) 1 = LBody \<and>
   along (paused 1)
     (scene [Enter 1 204 (5, 0) [''while'', ''1'', ''body''], Iterate 1 [], Sig ''0'' LOOP_PAUSE])
     [BodyDone 1 TCL_OK, Iterate 1 []] \<and>
   run (scene [Enter 1 204 (5, 0) [''while'', ''1'', ''body''], Iterate 1 [],
     Sig ''0'' LOOP_PAUSE]) [BodyDone 1 TCL_OK, Iterate 1 []] =
     Some (scene [Enter 1 204 (5, 0) [''while'', ''1'', ''body''], Iterate 1 [],
       Sig ''0'' LOOP_PAUSE, BodyDone 1 TCL_OK, Iterate 1 []]) \<and>
   spins (loopData (shared (scene [Enter 1 204 (5, 0) [''while'', ''1'', ''body''],
     Iterate 1 [], Sig ''0'' LOOP_PAUSE])) 1) = 1 \<and>
   spins (loopData (shared (scene [Enter 1 204 (5, 0) [''while'', ''1'', ''body''],
     Iterate 1 [], Sig ''0'' LOOP_PAUSE, BodyDone 1 TCL_OK, Iterate 1 []])) 1) = 2"
  by (simp add: model paused_def)

section \<open>Counting the visits of the checkpoint\<close>

lemma spins_fire:
  assumes f: "fire c ev = Some c'" and ne: "\<not> enters p ev"
  shows "spins (loopData (shared c') p) =
    spins (loopData (shared c) p) + (if visit p ev then 1 else 0)"
proof (cases ev)
  case (Enter q thread now objv)
  with f obtain s' where enter: "EnterLoop (shared c) q thread now objv = Some s'"
    and c': "c' = c\<lparr>shared := s', loop_pc := (loop_pc c)(q := LTest)\<rparr>"
    by (auto split: if_splits option.splits)
  from enter obtain key where mem: "loopData s' = (loopData (shared c))(q :=
           \<lparr>control = LOOP_RUN, lid = key, tid = thread, spins = 0, etime = now,
            hPtr = key, args = objv, evalPtr = None\<rparr>)"
    by (rule EnterLoop_fields)
  from ne Enter have "q \<noteq> p"
    by (simp add: enters_def)
  with Enter show ?thesis
    by (simp add: c' mem visit_def)
next
  case (Iterate q ires)
  with f have c': "c' = checked c q (CheckControl (shared c) q ires)"
    by (auto split: if_splits)
  with Iterate show ?thesis
    by (simp add: checked_def CheckControl_state visit_def)
next
  case (Stop q res)
  with f show ?thesis
    by (auto simp: visit_def split: if_splits)
next
  case (Evaluated q res str)
  with f have "c' = checked c q (CheckControl_evaluated (shared c) q res str)"
    by (auto split: if_splits)
  with Evaluated show ?thesis
    by (simp add: checked_def CheckControl_evaluated_spins visit_def)
next
  case (Woken q)
  with f show ?thesis
    by (auto simp: checked_def visit_def split: loop_pc.splits)
next
  case (BodyDone q res)
  with f show ?thesis
    by (auto simp: visit_def split: if_splits)
next
  case (Leave q)
  with f show ?thesis
    by (auto simp: visit_def split: loop_pc.splits)
next
  case (Eval e0 ident scr)
  with f have "c' = evaled c e0 (EvalObjCmd (shared c) e0 ident scr)"
    by (auto split: eval_pc.splits)
  with Eval show ?thesis
    by (rule_tac EvalObjCmd_cases [of "shared c" e0 ident scr])
      (simp_all add: evaled_def visit_def)
next
  case (TimedWait e0 status)
  with f obtain p0 where "c' = evaled c e0 (EvalObjCmd_wake (shared c) e0 p0 status)"
    by (auto split: eval_pc.splits)
  with TimedWait show ?thesis
    by (rule_tac EvalObjCmd_wake_cases [of status "shared c" e0 p0])
      (simp_all add: evaled_def visit_def)
next
  case (Sig ident signal)
  with f show ?thesis
    by (auto simp: visit_def)
next
  case (Abort ident)
  with f show ?thesis
    by (auto simp: visit_def)
next
  case (Init tlsPtr threadPtr thread)
  with f show ?thesis
    by (auto simp: visit_def)
next
  case (Cleanup threadPtr)
  with f show ?thesis
    by (auto simp: visit_def)
qed

lemma spins_run:
  "run c evs = Some c' \<Longrightarrow> \<not> list_ex (enters p) evs \<Longrightarrow>
   spins (loopData (shared c') p) = spins (loopData (shared c) p) + of_nat (visits p evs)"
proof (induction evs arbitrary: c)
  case Nil
  then show ?case by (simp add: visits_def)
next
  case (Cons ev evs)
  from Cons.prems(1) obtain c1 where f: "fire c ev = Some c1" and r: "run c1 evs = Some c'"
    by (auto split: option.splits)
  from Cons.prems(2) have ne: "\<not> enters p ev" and rest: "\<not> list_ex (enters p) evs"
    by simp_all
  from spins_fire [OF f ne] Cons.IH [OF r rest] show ?case
    by (simp add: visits_def)
qed

lemma paused_visit_fire:
  assumes f: "fire c ev = Some c'" and pa: "paused p c'"
  shows "if in_checkpoint c p then \<not> visit p ev else visit p ev \<longrightarrow> in_checkpoint c' p"
proof (cases ev)
  case (Iterate q ires)
  with f have pc: "loop_pc c q = LTest"
    and c': "c' = checked c q (CheckControl (shared c) q ires)"
    by (auto split: if_splits)
  show ?thesis
  proof (cases "q = p")
    case True
    with pa have "control (loopData (shared c) p) = LOOP_PAUSE"
      by (simp add: paused_def c' checked_def CheckControl_state)
    with True pc Iterate show ?thesis
      by (simp add: c' checked_def CheckControl_def CheckControl_loop_def in_checkpoint_def
          after_check_def visit_def split: option.splits)
  next
    case False
    with Iterate show ?thesis
      by (simp add: visit_def)
  qed
qed (simp_all add: visit_def)

lemma paused_not_enters:
  assumes f: "fire c ev = Some c'" and pa: "paused p c'"
  shows "\<not> enters p ev"
proof (cases ev)
  case (Enter q thread now objv)
  with f obtain s' where enter: "EnterLoop (shared c) q thread now objv = Some s'"
    and c': "c' = c\<lparr>shared := s', loop_pc := (loop_pc c)(q := LTest)\<rparr>"
    by (auto split: if_splits option.splits)
  from enter obtain key where mem: "loopData s' = (loopData (shared c))(q :=
           \<lparr>control = LOOP_RUN, lid = key, tid = thread, spins = 0, etime = now,
            hPtr = key, args = objv, evalPtr = None\<rparr>)"
    by (rule EnterLoop_fields)
  from pa have "q \<noteq> p"
    by (auto simp: paused_def c' mem)
  with Enter show ?thesis
    by (simp add: enters_def)
qed (simp_all add: enters_def)

lemma paused_step:
  assumes f: "fire c ev = Some c'" and pa: "paused p c'"
  shows "if in_checkpoint c p
    then in_checkpoint c' p \<and> \<not> visit p ev \<and>
      spins (loopData (shared c') p) = spins (loopData (shared c) p)
    else \<not> in_checkpoint c' p \<and> \<not> visit p ev \<and>
        spins (loopData (shared c') p) = spins (loopData (shared c) p) \<or>
      in_checkpoint c' p \<and> visit p ev \<and>
        spins (loopData (shared c') p) = spins (loopData (shared c) p) + 1"
proof -
  note a = paused_fire [OF f pa] and b = paused_visit_fire [OF f pa]
    and s = spins_fire [OF f paused_not_enters [OF f pa]]
  show ?thesis
  proof (cases "in_checkpoint c p")
    case True
    with a b show ?thesis
      by simp
  next
    case outside: False
    show ?thesis
    proof (cases "visit p ev")
      case True
      with outside b s show ?thesis
        by simp
    next
      case False
      with s have "spins (loopData (shared c') p) = spins (loopData (shared c) p)"
        by simp
      with outside a False show ?thesis
        by auto
    qed
  qed
qed

text \<open>
  C7, as the code has it. \<open>spins\<close> counts the visits of the checkpoint, one per call of
  \<open>CheckControl\<close>, on entry and whatever the control flag: over any events without an
  \<open>EnterLoop\<close> of the loop, \<open>spins\<close> grows by the number of calls of \<open>CheckControl\<close> by the
  loop, modulo \<open>2 ^ 32\<close>. As long as the control flag of a loop stays \<open>LOOP_PAUSE\<close>,
  whatever the loops and commands do: a loop that is inside \<open>CheckControl\<close> stays inside,
  starts no visit and its \<open>spins\<close> do not change; a loop that is outside \<open>CheckControl\<close>,
  in its body for instance, either still is, with no visit and the same \<open>spins\<close>, or it
  has entered \<open>CheckControl\<close> once, where it is now held, and its \<open>spins\<close> are one more.
\<close>

theorem paused_loop_spins:
  assumes "run c evs = Some c'"
  shows "(\<not> list_ex (enters p) evs \<longrightarrow>
      spins (loopData (shared c') p) = spins (loopData (shared c) p) + of_nat (visits p evs)) \<and>
    (along (paused p) c evs \<longrightarrow>
      (if in_checkpoint c p
       then in_checkpoint c' p \<and> visits p evs = 0 \<and>
         spins (loopData (shared c') p) = spins (loopData (shared c) p)
       else \<not> in_checkpoint c' p \<and> visits p evs = 0 \<and>
           spins (loopData (shared c') p) = spins (loopData (shared c) p) \<or>
         in_checkpoint c' p \<and> visits p evs = 1 \<and>
           spins (loopData (shared c') p) = spins (loopData (shared c) p) + 1))"
proof (intro conjI impI)
  assume "\<not> list_ex (enters p) evs"
  with assms show "spins (loopData (shared c') p) =
      spins (loopData (shared c) p) + of_nat (visits p evs)"
    by (rule spins_run)
next
  assume "along (paused p) c evs"
  then show "if in_checkpoint c p
       then in_checkpoint c' p \<and> visits p evs = 0 \<and>
         spins (loopData (shared c') p) = spins (loopData (shared c) p)
       else \<not> in_checkpoint c' p \<and> visits p evs = 0 \<and>
           spins (loopData (shared c') p) = spins (loopData (shared c) p) \<or>
         in_checkpoint c' p \<and> visits p evs = 1 \<and>
           spins (loopData (shared c') p) = spins (loopData (shared c) p) + 1"
    using assms
  proof (induction evs arbitrary: c)
    case Nil
    then show ?case by (simp add: visits_def)
  next
    case (Cons ev evs)
    from Cons.prems obtain c1 where f: "fire c ev = Some c1"
      and al: "along (paused p) c1 evs" and r: "run c1 evs = Some c'"
      by (auto split: option.splits)
    from al have "paused p c1"
      by (cases evs) simp_all
    from paused_step [OF f this] Cons.IH [OF al r] show ?case
      by (auto simp: visits_def split: if_splits)
  qed
qed

theorem paused_loop_spins_witness:
  "along (paused 1)
     (scene [Enter 1 204 (5, 0) [''while'', ''1'', ''body''], Sig ''0'' LOOP_PAUSE, Iterate 1 []])
     [Woken 1, Eval 10 ''0'' ''set x 1'', Woken 1, Evaluated 1 TCL_OK ''1'', Woken 1] \<and>
   run (scene [Enter 1 204 (5, 0) [''while'', ''1'', ''body''], Sig ''0'' LOOP_PAUSE, Iterate 1 []])
     [Woken 1, Eval 10 ''0'' ''set x 1'', Woken 1, Evaluated 1 TCL_OK ''1'', Woken 1] =
     Some (scene [Enter 1 204 (5, 0) [''while'', ''1'', ''body''], Sig ''0'' LOOP_PAUSE,
       Iterate 1 [], Woken 1, Eval 10 ''0'' ''set x 1'', Woken 1, Evaluated 1 TCL_OK ''1'',
       Woken 1]) \<and>
   in_checkpoint (scene [Enter 1 204 (5, 0) [''while'', ''1'', ''body''], Sig ''0'' LOOP_PAUSE,
     Iterate 1 []]) 1 \<and>
   spins (loopData (shared (scene [Enter 1 204 (5, 0) [''while'', ''1'', ''body''],
     Sig ''0'' LOOP_PAUSE, Iterate 1 []])) 1) = 1 \<and>
   in_checkpoint (scene [Enter 1 204 (5, 0) [''while'', ''1'', ''body''], Sig ''0'' LOOP_PAUSE,
     Iterate 1 [], Woken 1, Eval 10 ''0'' ''set x 1'', Woken 1, Evaluated 1 TCL_OK ''1'',
     Woken 1]) 1 \<and>
   spins (loopData (shared (scene [Enter 1 204 (5, 0) [''while'', ''1'', ''body''],
     Sig ''0'' LOOP_PAUSE, Iterate 1 [], Woken 1, Eval 10 ''0'' ''set x 1'', Woken 1,
     Evaluated 1 TCL_OK ''1'', Woken 1])) 1) = 1 \<and>
   run (scene [Enter 1 204 (5, 0) [''while'', ''1'', ''body'']])
     [Iterate 1 [], BodyDone 1 TCL_OK, Iterate 1 [], BodyDone 1 TCL_CONTINUE, Iterate 1 []] =
     Some (scene [Enter 1 204 (5, 0) [''while'', ''1'', ''body''], Iterate 1 [],
       BodyDone 1 TCL_OK, Iterate 1 [], BodyDone 1 TCL_CONTINUE, Iterate 1 []]) \<and>
   visits 1 [Iterate 1 [], BodyDone 1 TCL_OK, Iterate 1 [], BodyDone 1 TCL_CONTINUE,
     Iterate 1 []] = 3 \<and>
   spins (loopData (shared (scene [Enter 1 204 (5, 0) [''while'', ''1'', ''body''], Iterate 1 [],
     BodyDone 1 TCL_OK, Iterate 1 [], BodyDone 1 TCL_CONTINUE, Iterate 1 []])) 1) = 3"
  using paused_loop_spins [where p = 1
      and c = "scene [Enter 1 204 (5, 0) [''while'', ''1'', ''body''], Sig ''0'' LOOP_PAUSE,
        Iterate 1 []]"
      and evs = "[Woken 1, Eval 10 ''0'' ''set x 1'', Woken 1, Evaluated 1 TCL_OK ''1'', Woken 1]"
      and c' = "scene [Enter 1 204 (5, 0) [''while'', ''1'', ''body''], Sig ''0'' LOOP_PAUSE,
        Iterate 1 [], Woken 1, Eval 10 ''0'' ''set x 1'', Woken 1, Evaluated 1 TCL_OK ''1'',
        Woken 1]"]
    paused_loop_spins [where p = 1
      and c = "scene [Enter 1 204 (5, 0) [''while'', ''1'', ''body'']]"
      and evs = "[Iterate 1 [], BodyDone 1 TCL_OK, Iterate 1 [], BodyDone 1 TCL_CONTINUE,
        Iterate 1 []]"
      and c' = "scene [Enter 1 204 (5, 0) [''while'', ''1'', ''body''], Iterate 1 [],
        BodyDone 1 TCL_OK, Iterate 1 [], BodyDone 1 TCL_CONTINUE, Iterate 1 []]"]
  by (simp add: model paused_def in_checkpoint_def visits_def visit_def enters_def)

section \<open>A canceled loop\<close>

lemma CheckControl_yield:
  "fst (CheckControl s p ires) =
     (case evalPtr (loopData s p) of
        Some e \<Rightarrow> EvalScript (script (evalData s e))
      | None \<Rightarrow>
          (case control (loopData s p) of
             LOOP_RUN \<Rightarrow> Returned TCL_OK ires
           | LOOP_PAUSE \<Rightarrow> CondWait ires
           | LOOP_CANCEL \<Rightarrow> Returned TCL_ERROR ''nsloopctl: loop canceled: returning TCL_ERROR''))"
  by (cases "control (loopData s p)"; cases "evalPtr (loopData s p)")
    (simp_all add: CheckControl_def CheckControl_loop_def)

lemma CheckControl_woken_yield:
  "fst (CheckControl_woken s p ires) =
     (case evalPtr (loopData s p) of
        Some e \<Rightarrow> EvalScript (script (evalData s e))
      | None \<Rightarrow>
          (case control (loopData s p) of
             LOOP_RUN \<Rightarrow> Returned TCL_OK ires
           | LOOP_PAUSE \<Rightarrow> CondWait ires
           | LOOP_CANCEL \<Rightarrow> Returned TCL_ERROR ''nsloopctl: loop canceled: returning TCL_ERROR''))"
  by (cases "control (loopData s p)"; cases "evalPtr (loopData s p)")
    (simp_all add: CheckControl_woken_def CheckControl_loop_def)

lemma CheckControl_evaluated_yield:
  "fst (CheckControl_evaluated s p res str) =
     (case control (loopData s p) of
        LOOP_RUN \<Rightarrow> Returned TCL_OK str
      | LOOP_PAUSE \<Rightarrow> CondWait str
      | LOOP_CANCEL \<Rightarrow> Returned TCL_ERROR ''nsloopctl: loop canceled: returning TCL_ERROR'')"
  by (cases "control (loopData s p)"; cases "evalPtr (loopData s p)")
    (simp_all add: CheckControl_evaluated_def CheckControl_loop_def Ns_CondBroadcast_def Let_def)

lemma CheckControl_control:
  "control (loopData (snd (CheckControl s p ires)) q) = control (loopData s q)"
  "control (loopData (snd (CheckControl_woken s p ires)) q) = control (loopData s q)"
  "control (loopData (snd (CheckControl_evaluated s p res str)) q) = control (loopData s q)"
  by (simp_all add: CheckControl_state CheckControl_evaluated_state split: option.splits)

lemma CheckControl_evalPtr:
  "evalPtr (loopData (snd (CheckControl s p ires)) q) = evalPtr (loopData s q)"
  "evalPtr (loopData (snd (CheckControl_woken s p ires)) q) = evalPtr (loopData s q)"
  "evalPtr (loopData (snd (CheckControl_evaluated s p res str)) p) = None"
  by (simp_all add: CheckControl_state CheckControl_evaluated_state split: option.splits)

lemma canceled_fire:
  assumes f: "fire c ev = Some c'" and ca: "canceled p c'" and pc: "loop_pc c p \<noteq> LBody"
  shows "loop_pc c' p \<noteq> LBody"
proof (cases ev)
  case (Enter q thread now objv)
  with f pc show ?thesis
    by (auto split: if_splits option.splits)
next
  case (Iterate q ires)
  with f have c': "c' = checked c q (CheckControl (shared c) q ires)"
    by (auto split: if_splits)
  show ?thesis
  proof (cases "q = p")
    case True
    with ca have "control (loopData (shared c) p) = LOOP_CANCEL"
      by (simp add: canceled_def c' checked_def CheckControl_control)
    with True show ?thesis
      by (simp add: c' checked_def CheckControl_yield after_check_def split: option.splits)
  next
    case False
    with pc show ?thesis
      by (simp add: c' checked_def)
  qed
next
  case (Stop q res)
  with f pc show ?thesis
    by (auto split: if_splits)
next
  case (Evaluated q res str)
  with f have c': "c' = checked c q (CheckControl_evaluated (shared c) q res str)"
    by (auto split: if_splits)
  show ?thesis
  proof (cases "q = p")
    case True
    with ca have "control (loopData (shared c) p) = LOOP_CANCEL"
      by (simp add: canceled_def c' checked_def CheckControl_control)
    with True show ?thesis
      by (simp add: c' checked_def CheckControl_evaluated_yield after_check_def)
  next
    case False
    with pc show ?thesis
      by (simp add: c' checked_def)
  qed
next
  case (Woken q)
  with f obtain ires where c': "c' = checked c q (CheckControl_woken (shared c) q ires)"
    by (auto split: loop_pc.splits)
  show ?thesis
  proof (cases "q = p")
    case True
    with ca have "control (loopData (shared c) p) = LOOP_CANCEL"
      by (simp add: canceled_def c' checked_def)
    with True show ?thesis
      by (simp add: c' checked_def CheckControl_woken_yield after_check_def split: option.splits)
  next
    case False
    with pc show ?thesis
      by (simp add: c' checked_def)
  qed
next
  case (BodyDone q res)
  with f pc show ?thesis
    by (auto split: if_splits)
next
  case (Leave q)
  with f pc show ?thesis
    by (auto split: loop_pc.splits if_splits)
next
  case (Eval e0 ident scr)
  with f pc show ?thesis
    by (auto simp: evaled_def split: eval_pc.splits)
next
  case (TimedWait e0 status)
  with f pc show ?thesis
    by (auto simp: evaled_def split: eval_pc.splits)
next
  case (Sig ident signal)
  with f pc show ?thesis
    by auto
next
  case (Abort ident)
  with f pc show ?thesis
    by auto
next
  case (Init tlsPtr threadPtr thread)
  with f pc show ?thesis
    by auto
next
  case (Cleanup threadPtr)
  with f pc show ?thesis
    by auto
qed

lemma canceled_run:
  "along (canceled p) c evs \<Longrightarrow> run c evs = Some c' \<Longrightarrow> loop_pc c p \<noteq> LBody \<Longrightarrow>
   loop_pc c' p \<noteq> LBody"
proof (induction evs arbitrary: c)
  case Nil
  then show ?case by simp
next
  case (Cons ev evs)
  from Cons.prems obtain c1 where f: "fire c ev = Some c1"
    and al: "along (canceled p) c1 evs" and r: "run c1 evs = Some c'"
    by (auto split: option.splits)
  from al have "canceled p c1"
    by (cases evs) simp_all
  from canceled_fire [OF f this Cons.prems(3)] have "loop_pc c1 p \<noteq> LBody" .
  with al r show ?case
    by (rule Cons.IH)
qed

lemma CancelObjCmd_found:
  assumes "map_of (loops s) ident = Some (Some p)"
  shows "CancelObjCmd s ident =
    ((TCL_OK, ''''),
     s\<lparr>loopData := (loopData s)(p := (loopData s p)\<lparr>control := LOOP_CANCEL\<rparr>),
       cond := cond s + 1\<rparr>)"
proof -
  from assms have "ident \<in> set (map fst (loops s))"
    by (auto dest: map_of_SomeD simp: rev_image_eqI)
  with assms have "GetLoop s ident = (Some p, '''')"
    by (simp add: GetLoop_def Tcl_FindHashEntry_def Tcl_GetHashValue_def)
  then show ?thesis
    by (simp add: CancelObjCmd_def Signal_def Ns_CondBroadcast_def)
qed

text \<open>
  C6. What \<open>CheckControl\<close> does next is fixed by the request and the control flag that it
  finds when it takes the mutex, at its call, after a wait and after a script: with a
  request attached, at the call or after a wait, it evaluates the script; otherwise with
  \<open>LOOP_PAUSE\<close> it waits, with \<open>LOOP_CANCEL\<close> it returns \<open>TCL_ERROR\<close> with the cancel message,
  and the loop leaves without evaluating its body, and with \<open>LOOP_RUN\<close> it returns \<open>TCL_OK\<close>
  and the body is evaluated. It never changes the flag. \<open>loopctl_cancel\<close> on the id of a
  loop sets the flag of that loop to \<open>LOOP_CANCEL\<close>, whatever it was, paused or not; a loop
  that waits at its checkpoint then returns \<open>TCL_ERROR\<close> when it wakes up. And as long as
  the flag of a loop stays \<open>LOOP_CANCEL\<close>, whatever the loops and commands do, a loop that
  is not in its body does not get into it.
\<close>

theorem CheckControl_cancel:
  "fst (CheckControl s p ires) =
     (case evalPtr (loopData s p) of
        Some e \<Rightarrow> EvalScript (script (evalData s e))
      | None \<Rightarrow>
          (case control (loopData s p) of
             LOOP_RUN \<Rightarrow> Returned TCL_OK ires
           | LOOP_PAUSE \<Rightarrow> CondWait ires
           | LOOP_CANCEL \<Rightarrow> Returned TCL_ERROR ''nsloopctl: loop canceled: returning TCL_ERROR'')) \<and>
   fst (CheckControl_woken s p ires) =
     (case evalPtr (loopData s p) of
        Some e \<Rightarrow> EvalScript (script (evalData s e))
      | None \<Rightarrow>
          (case control (loopData s p) of
             LOOP_RUN \<Rightarrow> Returned TCL_OK ires
           | LOOP_PAUSE \<Rightarrow> CondWait ires
           | LOOP_CANCEL \<Rightarrow> Returned TCL_ERROR ''nsloopctl: loop canceled: returning TCL_ERROR'')) \<and>
   fst (CheckControl_evaluated s p res str) =
     (case control (loopData s p) of
        LOOP_RUN \<Rightarrow> Returned TCL_OK str
      | LOOP_PAUSE \<Rightarrow> CondWait str
      | LOOP_CANCEL \<Rightarrow> Returned TCL_ERROR ''nsloopctl: loop canceled: returning TCL_ERROR'') \<and>
   control (loopData (snd (CheckControl s p ires)) q) = control (loopData s q) \<and>
   control (loopData (snd (CheckControl_woken s p ires)) q) = control (loopData s q) \<and>
   control (loopData (snd (CheckControl_evaluated s p res str)) q) = control (loopData s q) \<and>
   evalPtr (loopData (snd (CheckControl s p ires)) q) = evalPtr (loopData s q) \<and>
   evalPtr (loopData (snd (CheckControl_woken s p ires)) q) = evalPtr (loopData s q) \<and>
   evalPtr (loopData (snd (CheckControl_evaluated s p res str)) p) = None \<and>
   after_check (Returned TCL_ERROR msg) = LExit TCL_ERROR \<and>
   after_check (Returned TCL_OK msg) = LBody \<and>
   (map_of (loops s) ident = Some (Some p) \<longrightarrow>
      fst (CancelObjCmd s ident) = (TCL_OK, '''') \<and>
      control (loopData (snd (CancelObjCmd s ident)) p) = LOOP_CANCEL \<and>
      evalPtr (loopData (snd (CancelObjCmd s ident)) p) = evalPtr (loopData s p) \<and>
      (evalPtr (loopData s p) = None \<longrightarrow>
         fst (CheckControl (snd (CancelObjCmd s ident)) p ires) =
           Returned TCL_ERROR ''nsloopctl: loop canceled: returning TCL_ERROR'' \<and>
         fst (CheckControl_woken (snd (CancelObjCmd s ident)) p ires) =
           Returned TCL_ERROR ''nsloopctl: loop canceled: returning TCL_ERROR'') \<and>
      fst (CheckControl_evaluated (snd (CancelObjCmd s ident)) p res str) =
        Returned TCL_ERROR ''nsloopctl: loop canceled: returning TCL_ERROR'') \<and>
   (along (canceled p) c evs \<and> run c evs = Some c' \<and> loop_pc c p \<noteq> LBody \<longrightarrow>
      loop_pc c' p \<noteq> LBody)"
proof (intro conjI impI)
  show "fst (CheckControl s p ires) =
     (case evalPtr (loopData s p) of
        Some e \<Rightarrow> EvalScript (script (evalData s e))
      | None \<Rightarrow>
          (case control (loopData s p) of
             LOOP_RUN \<Rightarrow> Returned TCL_OK ires
           | LOOP_PAUSE \<Rightarrow> CondWait ires
           | LOOP_CANCEL \<Rightarrow> Returned TCL_ERROR ''nsloopctl: loop canceled: returning TCL_ERROR''))"
    by (fact CheckControl_yield)
  show "fst (CheckControl_woken s p ires) =
     (case evalPtr (loopData s p) of
        Some e \<Rightarrow> EvalScript (script (evalData s e))
      | None \<Rightarrow>
          (case control (loopData s p) of
             LOOP_RUN \<Rightarrow> Returned TCL_OK ires
           | LOOP_PAUSE \<Rightarrow> CondWait ires
           | LOOP_CANCEL \<Rightarrow> Returned TCL_ERROR ''nsloopctl: loop canceled: returning TCL_ERROR''))"
    by (fact CheckControl_woken_yield)
  show "fst (CheckControl_evaluated s p res str) =
     (case control (loopData s p) of
        LOOP_RUN \<Rightarrow> Returned TCL_OK str
      | LOOP_PAUSE \<Rightarrow> CondWait str
      | LOOP_CANCEL \<Rightarrow> Returned TCL_ERROR ''nsloopctl: loop canceled: returning TCL_ERROR'')"
    by (fact CheckControl_evaluated_yield)
  show "control (loopData (snd (CheckControl s p ires)) q) = control (loopData s q)"
    "control (loopData (snd (CheckControl_woken s p ires)) q) = control (loopData s q)"
    "control (loopData (snd (CheckControl_evaluated s p res str)) q) = control (loopData s q)"
    by (fact CheckControl_control)+
  show "evalPtr (loopData (snd (CheckControl s p ires)) q) = evalPtr (loopData s q)"
    "evalPtr (loopData (snd (CheckControl_woken s p ires)) q) = evalPtr (loopData s q)"
    "evalPtr (loopData (snd (CheckControl_evaluated s p res str)) p) = None"
    by (fact CheckControl_evalPtr)+
  show "after_check (Returned TCL_ERROR msg) = LExit TCL_ERROR"
    "after_check (Returned TCL_OK msg) = LBody"
    by (simp_all add: after_check_def)
next
  assume found: "map_of (loops s) ident = Some (Some p)"
  note cancel = CancelObjCmd_found [OF found]
  show "fst (CancelObjCmd s ident) = (TCL_OK, '''')"
    "control (loopData (snd (CancelObjCmd s ident)) p) = LOOP_CANCEL"
    "evalPtr (loopData (snd (CancelObjCmd s ident)) p) = evalPtr (loopData s p)"
    by (simp_all add: cancel)
  show "fst (CheckControl_evaluated (snd (CancelObjCmd s ident)) p res str) =
      Returned TCL_ERROR ''nsloopctl: loop canceled: returning TCL_ERROR''"
    by (simp add: CheckControl_evaluated_yield cancel)
  assume "evalPtr (loopData s p) = None"
  then show "fst (CheckControl (snd (CancelObjCmd s ident)) p ires) =
      Returned TCL_ERROR ''nsloopctl: loop canceled: returning TCL_ERROR''"
    "fst (CheckControl_woken (snd (CancelObjCmd s ident)) p ires) =
      Returned TCL_ERROR ''nsloopctl: loop canceled: returning TCL_ERROR''"
    by (simp_all add: CheckControl_yield CheckControl_woken_yield cancel)
next
  assume "along (canceled p) c evs \<and> run c evs = Some c' \<and> loop_pc c p \<noteq> LBody"
  then have "along (canceled p) c evs" and "run c evs = Some c'" and "loop_pc c p \<noteq> LBody"
    by simp_all
  then show "loop_pc c' p \<noteq> LBody"
    by (rule canceled_run)
qed

theorem CheckControl_cancel_witness:
  "loop_pc (scene [Enter 1 204 (5, 0) [''while'', ''1'', ''body''], Iterate 1 []]) 1 = LBody \<and>
   map_of (loops (shared (scene [Enter 1 204 (5, 0) [''while'', ''1'', ''body''], Iterate 1 []])))
     ''0'' = Some (Some 1) \<and>
   control (loopData (snd (CancelObjCmd (shared (scene [Enter 1 204 (5, 0)
     [''while'', ''1'', ''body''], Iterate 1 []])) ''0'')) 1) = LOOP_CANCEL \<and>
   fst (CheckControl (snd (CancelObjCmd (shared (scene [Enter 1 204 (5, 0)
     [''while'', ''1'', ''body''], Iterate 1 []])) ''0'')) 1 []) =
     Returned TCL_ERROR ''nsloopctl: loop canceled: returning TCL_ERROR'' \<and>
   along (canceled 1)
     (scene [Enter 1 204 (5, 0) [''while'', ''1'', ''body''], Iterate 1 [], Sig ''0'' LOOP_CANCEL,
       BodyDone 1 TCL_OK])
     [Eval 10 ''0'' ''set x 1'', Iterate 1 [], Evaluated 1 TCL_OK ''1''] \<and>
   run (scene [Enter 1 204 (5, 0) [''while'', ''1'', ''body''], Iterate 1 [], Sig ''0'' LOOP_CANCEL,
       BodyDone 1 TCL_OK])
     [Eval 10 ''0'' ''set x 1'', Iterate 1 [], Evaluated 1 TCL_OK ''1''] =
     Some (scene [Enter 1 204 (5, 0) [''while'', ''1'', ''body''], Iterate 1 [],
       Sig ''0'' LOOP_CANCEL, BodyDone 1 TCL_OK, Eval 10 ''0'' ''set x 1'', Iterate 1 [],
       Evaluated 1 TCL_OK ''1'']) \<and>
   loop_pc (scene [Enter 1 204 (5, 0) [''while'', ''1'', ''body''], Iterate 1 [],
     Sig ''0'' LOOP_CANCEL, BodyDone 1 TCL_OK]) 1 = LTest \<and>
   loop_pc (scene [Enter 1 204 (5, 0) [''while'', ''1'', ''body''], Iterate 1 [],
     Sig ''0'' LOOP_CANCEL, BodyDone 1 TCL_OK, Eval 10 ''0'' ''set x 1'', Iterate 1 [],
     Evaluated 1 TCL_OK ''1'']) 1 = LExit TCL_ERROR \<and>
   loop_pc (scene [Enter 1 204 (5, 0) [''while'', ''1'', ''body''], Sig ''0'' LOOP_PAUSE,
     Iterate 1 [], Sig ''0'' LOOP_CANCEL, Woken 1]) 1 = LExit TCL_ERROR \<and>
   loop_pc (scene [Enter 1 204 (5, 0) [''while'', ''1'', ''body''], Sig ''0'' LOOP_PAUSE,
     Iterate 1 [], Sig ''0'' LOOP_RUN, Woken 1]) 1 = LBody"
  using CheckControl_cancel [where
      s = "shared (scene [Enter 1 204 (5, 0) [''while'', ''1'', ''body''], Iterate 1 []])"
      and p = 1 and ires = "[]" and ident = "''0''"
      and c = "scene [Enter 1 204 (5, 0) [''while'', ''1'', ''body''], Iterate 1 [],
        Sig ''0'' LOOP_CANCEL, BodyDone 1 TCL_OK]"
      and evs = "[Eval 10 ''0'' ''set x 1'', Iterate 1 [], Evaluated 1 TCL_OK ''1'']"
      and c' = "scene [Enter 1 204 (5, 0) [''while'', ''1'', ''body''], Iterate 1 [],
        Sig ''0'' LOOP_CANCEL, BodyDone 1 TCL_OK, Eval 10 ''0'' ''set x 1'', Iterate 1 [],
        Evaluated 1 TCL_OK ''1'']"]
  by (simp add: model CancelObjCmd_def canceled_def)

section \<open>A request that timed out\<close>

lemma EvalObjCmd_wake_timeout:
  "state (evalData s eval) = EVAL_WAIT \<Longrightarrow>
   EvalObjCmd_wake s eval loopPtr NS_TIMEOUT =
     (CmdReturn TCL_ERROR ''timeout: result dropped'',
      s\<lparr>loopData := (loopData s)(loopPtr := (loopData s loopPtr)\<lparr>evalPtr := None\<rparr>)\<rparr>)"
  by (simp add: EvalObjCmd_wake_def EvalObjCmd_switch_def)


end
